theory Spec2Isabelle
  imports Complex_Main "HOL-Library.Sublist"
begin

section \<open>Python values, strings, bytes and exceptions\<close>

text \<open>
  A Python \<open>str\<close> is a sequence of Unicode code points, \<open>bytes\<close> a sequence of
  octets. Both are lists of naturals here, so that an ASCII string and its encoding are
  the same list. An exception is a value of \<open>py_error\<close>; a function that can raise
  returns \<open>py_error + 'a\<close>.
\<close>

type_synonym pystr = "nat list"
type_synonym bytes = "nat list"

datatype py_error =
    UnicodeEncodeError
  | UnicodeDecodeError
  | Binascii_Error
  | AttributeError
  | OverflowError
  | ZeroDivisionError
  | ValidationError
  | ValueError
  | SQLAlchemyError

text \<open>The ordering keys of the paginated rows: integers (primary keys) and strings.\<close>

datatype pyval = PyInt int | PyStr pystr

text \<open>An ASCII literal as a Python string.\<close>

definition ascii :: "string \<Rightarrow> pystr" where
  "ascii s = map of_char s"

text \<open>
  \<open>str(value)\<close>: the string itself for a \<open>str\<close>, the decimal digits for an \<open>int\<close>. An
  integer of more than \<open>int_max_str_digits\<close> digits (4300 unless the interpreter is
  configured otherwise) is not converted: \<open>str\<close> raises \<open>ValueError\<close>.
\<close>

fun digits :: "nat \<Rightarrow> pystr" where
  "digits n = (if n < 10 then [48 + n] else digits (n div 10) @ [48 + n mod 10])"

declare digits.simps [simp del]

definition decimal :: "int \<Rightarrow> pystr" where
  "decimal i = (if i < 0 then 45 # digits (nat \<bar>i\<bar>) else digits (nat \<bar>i\<bar>))"

definition int_max_str_digits :: int where
  "int_max_str_digits = 4300"

definition int_str :: "int \<Rightarrow> py_error + pystr" where
  "int_str i =
     (if int_max_str_digits < int (length (digits (nat \<bar>i\<bar>))) then Inl ValueError
      else Inr (decimal i))"

fun py_str :: "pyval \<Rightarrow> py_error + pystr" where
  "py_str (PyInt i) = int_str i"
| "py_str (PyStr s) = Inr s"

text \<open>Truthiness of an \<open>Optional[str]\<close>: \<open>None\<close> and the empty string are false.\<close>

fun truthy :: "pystr option \<Rightarrow> bool" where
  "truthy None = False"
| "truthy (Some s) = (s \<noteq> [])"

text \<open>The bind of the exception monad.\<close>

fun bind_err :: "py_error + 'a \<Rightarrow> ('a \<Rightarrow> py_error + 'b) \<Rightarrow> py_error + 'b" where
  "bind_err (Inl e) f = Inl e"
| "bind_err (Inr x) f = f x"

subsection \<open>\<open>str.encode()\<close> and \<open>bytes.decode()\<close>: UTF-8, errors strict\<close>

definition utf8_encode_cp :: "nat \<Rightarrow> py_error + bytes" where
  "utf8_encode_cp c =
     (if c < 0x80 then Inr [c]
      else if c < 0x800 then Inr [0xC0 + c div 64, 0x80 + c mod 64]
      else if c < 0x10000 then
        (if 0xD800 \<le> c \<and> c < 0xE000 then Inl UnicodeEncodeError
         else Inr [0xE0 + c div 4096, 0x80 + c div 64 mod 64, 0x80 + c mod 64])
      else if c < 0x110000 then
        Inr [0xF0 + c div 262144, 0x80 + c div 4096 mod 64, 0x80 + c div 64 mod 64,
             0x80 + c mod 64]
      else Inl UnicodeEncodeError)"

fun str_encode :: "pystr \<Rightarrow> py_error + bytes" where
  "str_encode [] = Inr []"
| "str_encode (c # cs) =
     bind_err (utf8_encode_cp c) (\<lambda>bs. bind_err (str_encode cs) (\<lambda>rest. Inr (bs @ rest)))"

definition is_cont :: "nat \<Rightarrow> bool" where
  "is_cont b = (0x80 \<le> b \<and> b < 0xC0)"

text \<open>
  The well-formed byte sequences of UTF-8: no overlong forms (lead bytes \<open>C0\<close>, \<open>C1\<close>,
  \<open>E0\<close> followed by less than \<open>A0\<close>, \<open>F0\<close> followed by less than \<open>90\<close>), no
  surrogates (\<open>ED\<close> followed by \<open>A0\<close> or more), nothing above \<open>10FFFF\<close>.
\<close>

fun bytes_decode :: "bytes \<Rightarrow> py_error + pystr" where
  "bytes_decode [] = Inr []"
| "bytes_decode (b # bs) =
     (if b < 0x80 then bind_err (bytes_decode bs) (\<lambda>s. Inr (b # s))
      else if 0xC2 \<le> b \<and> b < 0xE0 then
        (case bs of
           b1 # r \<Rightarrow>
             if is_cont b1
             then bind_err (bytes_decode r) (\<lambda>s. Inr (((b - 0xC0) * 64 + (b1 - 0x80)) # s))
             else Inl UnicodeDecodeError
         | _ \<Rightarrow> Inl UnicodeDecodeError)
      else if 0xE0 \<le> b \<and> b < 0xF0 then
        (case bs of
           b1 # b2 # r \<Rightarrow>
             if (if b = 0xE0 then 0xA0 else 0x80) \<le> b1
                \<and> b1 < (if b = 0xED then 0xA0 else 0xC0) \<and> is_cont b2
             then bind_err (bytes_decode r)
                    (\<lambda>s. Inr (((b - 0xE0) * 4096 + (b1 - 0x80) * 64 + (b2 - 0x80)) # s))
             else Inl UnicodeDecodeError
         | _ \<Rightarrow> Inl UnicodeDecodeError)
      else if 0xF0 \<le> b \<and> b < 0xF5 then
        (case bs of
           b1 # b2 # b3 # r \<Rightarrow>
             if (if b = 0xF0 then 0x90 else 0x80) \<le> b1
                \<and> b1 < (if b = 0xF4 then 0x90 else 0xC0) \<and> is_cont b2 \<and> is_cont b3
             then bind_err (bytes_decode r)
                    (\<lambda>s. Inr (((b - 0xF0) * 262144 + (b1 - 0x80) * 4096
                                 + (b2 - 0x80) * 64 + (b3 - 0x80)) # s))
             else Inl UnicodeDecodeError
         | _ \<Rightarrow> Inl UnicodeDecodeError)
      else Inl UnicodeDecodeError)"

subsection \<open>\<open>base64.b64encode\<close> and \<open>base64.b64decode\<close>\<close>

text \<open>The standard alphabet \<open>A-Z a-z 0-9 + /\<close> and its inverse table; \<open>=\<close> (61) pads.\<close>

definition b64_char :: "nat \<Rightarrow> nat" where
  "b64_char n =
     (if n < 26 then 65 + n else if n < 52 then 71 + n else if n < 62 then n - 4
      else if n = 62 then 43 else 47)"

definition b64_index :: "nat \<Rightarrow> nat option" where
  "b64_index c =
     (if 65 \<le> c \<and> c \<le> 90 then Some (c - 65)
      else if 97 \<le> c \<and> c \<le> 122 then Some (c - 71)
      else if 48 \<le> c \<and> c \<le> 57 then Some (c + 4)
      else if c = 43 then Some 62
      else if c = 47 then Some 63
      else None)"

fun b64encode :: "bytes \<Rightarrow> bytes" where
  "b64encode [] = []"
| "b64encode [a] = [b64_char (a div 4), b64_char (a mod 4 * 16), 61, 61]"
| "b64encode [a, b] =
     [b64_char (a div 4), b64_char (a mod 4 * 16 + b div 16), b64_char (b mod 16 * 4), 61]"
| "b64encode (a # b # c # rest) =
     [b64_char (a div 4), b64_char (a mod 4 * 16 + b div 16),
      b64_char (b mod 16 * 4 + c div 64), b64_char (c mod 64)] @ b64encode rest"

text \<open>
  \<open>b64decode\<close> is called without \<open>validate\<close>, so it is the lenient loop of
  \<open>binascii.a2b_base64\<close>: a character outside the alphabet is skipped, a pad is skipped
  unless it completes a quad that holds at least two data characters (then decoding
  stops there), and the input is rejected only when it ends inside a quad.
  The state is the position in the quad, the bits left over, and the pads seen in a row.
\<close>

fun a2b_base64 :: "nat \<Rightarrow> nat \<Rightarrow> nat \<Rightarrow> bytes \<Rightarrow> bytes \<Rightarrow> py_error + bytes" where
  "a2b_base64 quad_pos leftchar pads out [] =
     (if quad_pos \<noteq> 0 then Inl Binascii_Error else Inr out)"
| "a2b_base64 quad_pos leftchar pads out (this_ch # rest) =
     (if this_ch = 61 then
        (if quad_pos \<ge> 2 then
           (if quad_pos + (pads + 1) \<ge> 4 then Inr out
            else a2b_base64 quad_pos leftchar (pads + 1) out rest)
         else a2b_base64 quad_pos leftchar pads out rest)
      else
        (case b64_index this_ch of
           None \<Rightarrow> a2b_base64 quad_pos leftchar pads out rest
         | Some v \<Rightarrow>
             if quad_pos = 0 then a2b_base64 1 v 0 out rest
             else if quad_pos = 1 then
               a2b_base64 2 (v mod 16) 0 (out @ [leftchar * 4 + v div 16]) rest
             else if quad_pos = 2 then
               a2b_base64 3 (v mod 4) 0 (out @ [leftchar * 16 + v div 4]) rest
             else a2b_base64 0 0 0 (out @ [leftchar * 64 + v]) rest))"

definition b64decode :: "bytes \<Rightarrow> py_error + bytes" where
  "b64decode s = a2b_base64 0 0 0 [] s"

section \<open>Cursor codec\<close>

text \<open>
  \<open>cursor_pagination.py\<close>, lines 38 to 40:
  \<open>return b64encode(str(value).encode()).decode()\<close>.
\<close>

definition encode_cursor :: "pyval \<Rightarrow> py_error + pystr" where
  "encode_cursor v =
     bind_err (py_str v)
       (\<lambda>text. bind_err (str_encode text) (\<lambda>raw. bytes_decode (b64encode raw)))"

text \<open>
  Lines 43 to 48. \<open>decode_cursor_try\<close> is the body of the \<open>try\<close>,
  \<open>b64decode(cursor.encode()).decode()\<close>; \<open>except Exception\<close> catches whatever it raises
  and returns the empty string.
\<close>

definition decode_cursor_try :: "pystr \<Rightarrow> py_error + pystr" where
  "decode_cursor_try cursor =
     bind_err (str_encode cursor) (\<lambda>raw. bind_err (b64decode raw) bytes_decode)"

definition decode_cursor :: "pystr \<Rightarrow> py_error + pystr" where
  "decode_cursor cursor =
     (case decode_cursor_try cursor of Inl e \<Rightarrow> Inr [] | Inr s \<Rightarrow> Inr s)"

text \<open>
  What a caller gets back from \<open>decode_cursor(encode_cursor(x))\<close>, as a Python value, and
  the strings \<open>str.encode()\<close> accepts: those of Unicode scalar values (no surrogates).
\<close>

definition cursor_round_trip :: "pyval \<Rightarrow> py_error + pyval" where
  "cursor_round_trip x =
     bind_err (encode_cursor x) (\<lambda>c. bind_err (decode_cursor c) (\<lambda>s. Inr (PyStr s)))"

definition encodable :: "pystr \<Rightarrow> bool" where
  "encodable s = list_all (\<lambda>c. c < 0xD800 \<or> (0xE000 \<le> c \<and> c < 0x110000)) s"

section \<open>Queries and the database session\<close>

text \<open>
  A SQLAlchemy \<open>select\<close> is the caller's statement (entity and ordering) together with the
  clauses the pagers add: \<open>cursor_column > value\<close> or \<open>cursor_column < value\<close>, a limit and
  an offset. \<open>Count_of q\<close> is \<open>select(func.count()).select_from(q.subquery())\<close>.
\<close>

datatype criterion = Gt string pystr | Lt string pystr

record 's select =
  statement :: 's
  whereclause :: "criterion list"
  limit_clause :: "int option"
  offset_clause :: "int option"

datatype 's executable = Rows "'s select" | Count_of "'s select"

definition select_from :: "'s \<Rightarrow> 's select" where
  "select_from s = \<lparr>statement = s, whereclause = [], limit_clause = None, offset_clause = None\<rparr>"

definition where_sel :: "'s select \<Rightarrow> criterion \<Rightarrow> 's select" where
  "where_sel q c = q\<lparr>whereclause := whereclause q @ [c]\<rparr>"

definition limit_sel :: "'s select \<Rightarrow> int \<Rightarrow> 's select" where
  "limit_sel q n = q\<lparr>limit_clause := Some n\<rparr>"


text \<open>A row object is its attributes; \<open>getattr\<close> raises on a missing one.\<close>

type_synonym item = "(string \<times> pyval) list"

definition getattr :: "item \<Rightarrow> string \<Rightarrow> py_error + pyval" where
  "getattr obj attr = (case map_of obj attr of None \<Rightarrow> Inl AttributeError | Some v \<Rightarrow> Inr v)"

record column =
  name :: string

text \<open>
  The session is the storage collaborator: what \<open>db.execute(q).scalars().all()\<close> and
  \<open>db.execute(q).scalar()\<close> answer (or raise), and the log of the statements executed.
\<close>

record 's session =
  scalars_all :: "'s executable \<Rightarrow> py_error + item list"
  scalar :: "'s executable \<Rightarrow> py_error + int option"
  executed :: "'s executable list"

definition execute_scalars_all ::
  "'s session \<Rightarrow> 's executable \<Rightarrow> 's session \<times> (py_error + item list)" where
  "execute_scalars_all db q = (db\<lparr>executed := executed db @ [q]\<rparr>, scalars_all db q)"


text \<open>The template placeholders \<open>{{defaultPageSize}}\<close> and \<open>{{maxPageSize}}\<close>.\<close>

record config =
  defaultPageSize :: int
  maxPageSize :: int

section \<open>Cursor pager\<close>

text \<open>
  \<open>cursor_pagination.py\<close>, lines 17 to 23: the request model. Its \<open>limit\<close> is a bare
  \<open>int\<close>, with no bounds declared.
\<close>

record CursorPaginationParams =
  cursor :: "pystr option"
  limit :: int

text \<open>\<open>xs[:n]\<close>: a negative \<open>n\<close> counts from the end.\<close>

definition slice_to :: "'a list \<Rightarrow> int \<Rightarrow> 'a list" where
  "slice_to xs n = (if 0 \<le> n then take (nat n) xs else take (nat (int (length xs) + n)) xs)"

text \<open>Lines 100 to 103: the cursor is decoded only when it is truthy.\<close>

definition cursor_value_of :: "pystr option \<Rightarrow> py_error + pystr option" where
  "cursor_value_of c =
     (if truthy c then
        (case c of Some s \<Rightarrow> bind_err (decode_cursor s) (\<lambda>v. Inr (Some v)) | None \<Rightarrow> Inr None)
      else Inr None)"

text \<open>Lines 105 to 113: the filter on the cursor column, then the over-fetching limit.\<close>

definition cursor_query ::
  "'s select \<Rightarrow> column \<Rightarrow> pystr option \<Rightarrow> string \<Rightarrow> int \<Rightarrow> 's select" where
  "cursor_query query cursor_column cursor_value direction eff_limit =
     limit_sel
       (case cursor_value of
          Some v \<Rightarrow>
            if v \<noteq> [] then
              (if direction = ''forward'' then where_sel query (Gt (name cursor_column) v)
               else where_sel query (Lt (name cursor_column) v))
            else query
        | None \<Rightarrow> query)
       (eff_limit + 1)"

text \<open>Line 120: more rows were fetched than the page holds.\<close>

definition has_more_items :: "'a list \<Rightarrow> int \<Rightarrow> bool" where
  "has_more_items fetched eff_limit = (int (length fetched) > eff_limit)"

text \<open>Lines 124 to 137: the cursors of the returned page.\<close>

definition generate_cursors ::
  "item list \<Rightarrow> bool \<Rightarrow> pystr option \<Rightarrow> column \<Rightarrow> py_error + (pystr option \<times> pystr option)"
  where
  "generate_cursors items has_more cursor_value cursor_column =
     (if items \<noteq> [] then
        bind_err
          (if has_more then
             bind_err (getattr (last items) (name cursor_column))
               (\<lambda>last_item_cursor. bind_err (encode_cursor last_item_cursor) (\<lambda>c. Inr (Some c)))
           else Inr None)
          (\<lambda>next_cursor.
             bind_err
               (if truthy cursor_value then
                  bind_err (getattr (hd items) (name cursor_column))
                    (\<lambda>first_item_cursor.
                       bind_err (encode_cursor first_item_cursor) (\<lambda>c. Inr (Some c)))
                else Inr None)
               (\<lambda>previous_cursor. Inr (next_cursor, previous_cursor)))
      else Inr (None, None))"

text \<open>
  Lines 51 to 137. The local variable \<open>limit\<close> of the source is \<open>eff_limit\<close> here. The
  result is the session after the call and either the exception raised or the tuple
  \<open>(items, next_cursor, previous_cursor)\<close>.
\<close>

definition cursor_paginate ::
  "config \<Rightarrow> 's session \<Rightarrow> 's select \<Rightarrow> column \<Rightarrow> CursorPaginationParams \<Rightarrow> string
   \<Rightarrow> 's session \<times> (py_error + item list \<times> pystr option \<times> pystr option)" where
  "cursor_paginate cfg db query cursor_column params direction =
     (let eff_limit = min (limit params) (maxPageSize cfg) in
      case cursor_value_of (cursor params) of
        Inl e \<Rightarrow> (db, Inl e)
      | Inr cursor_value \<Rightarrow>
          (case execute_scalars_all db
                  (Rows (cursor_query query cursor_column cursor_value direction eff_limit)) of
             (db', Inl e) \<Rightarrow> (db', Inl e)
           | (db', Inr fetched) \<Rightarrow>
               let has_more = has_more_items fetched eff_limit;
                   items = (if has_more then slice_to fetched eff_limit else fetched)
               in (db',
                   bind_err (generate_cursors items has_more cursor_value cursor_column)
                     (\<lambda>(next_cursor, previous_cursor).
                        Inr (items, next_cursor, previous_cursor)))))"

text \<open>
  Lines 26 to 35 and 77 to 95: the response model, and the endpoint of the docstring, which
  builds the response from the pager's result with \<open>has_next = next_cursor is not None\<close>
  and \<open>has_previous = prev_cursor is not None\<close>.
\<close>

record CursorPaginationResponse =
  data :: "item list"
  next_cursor :: "pystr option"
  previous_cursor :: "pystr option"
  has_next :: bool
  has_previous :: bool

definition list_users ::
  "config \<Rightarrow> 's session \<Rightarrow> 's select \<Rightarrow> column \<Rightarrow> pystr option \<Rightarrow> int
   \<Rightarrow> 's session \<times> (py_error + CursorPaginationResponse)" where
  "list_users cfg db query cursor_column c l =
     (case cursor_paginate cfg db query cursor_column \<lparr>cursor = c, limit = l\<rparr> ''forward'' of
        (db', Inl e) \<Rightarrow> (db', Inl e)
      | (db', Inr (items, next_c, prev_c)) \<Rightarrow>
          (db', Inr \<lparr>data = items, next_cursor = next_c, previous_cursor = prev_c,
                     has_next = (next_c \<noteq> None), has_previous = (prev_c \<noteq> None)\<rparr>))"

section \<open>Offset pager\<close>

subsection \<open>\<open>int / int\<close> and \<open>math.ceil\<close>\<close>

text \<open>
  A finite \<open>float\<close> is \<open>Float m e\<close>, the number \<open>m * 2 ^ e\<close>. Python's true division of
  two integers returns the double nearest to the exact quotient (ties to even, 53
  significant bits, least exponent \<open>-1074\<close>) and raises \<open>OverflowError\<close> when that is
  \<open>2 ^ 1024\<close> or more.
\<close>

datatype pyfloat = Float int int

fun bit_length :: "nat \<Rightarrow> nat" where
  "bit_length n = (if n = 0 then 0 else Suc (bit_length (n div 2)))"

declare bit_length.simps [simp del]

text \<open>The integer nearest to \<open>n / d\<close>, ties to even.\<close>

definition round_half_even :: "nat \<Rightarrow> nat \<Rightarrow> nat" where
  "round_half_even n d =
     (let q = n div d; r = n mod d
      in if d < 2 * r \<or> (2 * r = d \<and> odd q) then q + 1 else q)"

text \<open>\<open>floor (log2 (a / b))\<close> for positive \<open>a\<close> and \<open>b\<close>.\<close>

definition floor_log2_quot :: "nat \<Rightarrow> nat \<Rightarrow> int" where
  "floor_log2_quot a b =
     (let d = int (bit_length a) - int (bit_length b)
      in if (if 0 \<le> d then b * 2 ^ nat d \<le> a else b \<le> a * 2 ^ nat (- d)) then d else d - 1)"

definition nat_truediv :: "nat \<Rightarrow> nat \<Rightarrow> py_error + nat \<times> int" where
  "nat_truediv a b =
     (let e = floor_log2_quot a b;
          p = max e (- 1022) - 52;
          m = (if 0 \<le> p then round_half_even a (b * 2 ^ nat p)
               else round_half_even (a * 2 ^ nat (- p)) b)
      in if 0 \<le> p \<and> 2 ^ 1024 \<le> m * 2 ^ nat p then Inl OverflowError else Inr (m, p))"

definition py_truediv :: "int \<Rightarrow> int \<Rightarrow> py_error + pyfloat" where
  "py_truediv a b =
     (if b = 0 then Inl ZeroDivisionError
      else if a = 0 then Inr (Float 0 0)
      else bind_err (nat_truediv (nat \<bar>a\<bar>) (nat \<bar>b\<bar>))
             (\<lambda>(m, p). Inr (Float (sgn a * sgn b * int m) p)))"

fun math_ceil :: "pyfloat \<Rightarrow> int" where
  "math_ceil (Float m e) = (if 0 \<le> e then m * 2 ^ nat e else - ((- m) div 2 ^ nat (- e)))"

subsection \<open>Parameters, metadata and the pager\<close>

text \<open>
  \<open>offset_pagination.py\<close>, lines 17 to 33. The field \<open>limit\<close> is \<open>page_limit\<close> here, and the
  fields \<open>has_next\<close> and \<open>has_previous\<close> of the metadata (lines 36 to 43) are
  \<open>meta_has_next\<close> and \<open>meta_has_previous\<close>: the names are taken by the cursor pager's
  records.
\<close>

record OffsetPaginationParams =
  page :: int
  page_limit :: int

text \<open>The validation of the model's fields: \<open>page >= 1\<close>, \<open>1 <= limit <= maxPageSize\<close>.\<close>

definition OffsetPaginationParams_init ::
  "config \<Rightarrow> int \<Rightarrow> int \<Rightarrow> py_error + OffsetPaginationParams" where
  "OffsetPaginationParams_init cfg p l =
     (if 1 \<le> p \<and> 1 \<le> l \<and> l \<le> maxPageSize cfg then Inr \<lparr>page = p, page_limit = l\<rparr>
      else Inl ValidationError)"

definition offset :: "OffsetPaginationParams \<Rightarrow> int" where
  "offset self = (page self - 1) * page_limit self"

record OffsetPaginationMeta =
  current_page :: int
  page_size :: int
  total_items :: int
  total_pages :: int
  meta_has_next :: bool
  meta_has_previous :: bool

record OffsetPaginationResponse =
  response_data :: "item list"
  pagination :: OffsetPaginationMeta


text \<open>
  Lines 119 to 149: \<open>total_pages = ceil(total_items / limit) if limit > 0 else 0\<close>, then
  the response.
\<close>

definition create_pagination_response ::
  "item list \<Rightarrow> int \<Rightarrow> int \<Rightarrow> int \<Rightarrow> py_error + OffsetPaginationResponse" where
  "create_pagination_response items n_total p l =
     bind_err (if 0 < l then bind_err (py_truediv n_total l) (\<lambda>x. Inr (math_ceil x)) else Inr 0)
       (\<lambda>pages.
          Inr \<lparr>response_data = items,
               pagination = \<lparr>current_page = p, page_size = l, total_items = n_total,
                              total_pages = pages, meta_has_next = (p < pages),
                              meta_has_previous = (1 < p)\<rparr>\<rparr>)"

section \<open>A table as the storage collaborator\<close>

text \<open>
  Modelled from the spec: the fetch and count capabilities of the storage engine, which
  is not part of the repository ("accepts an ordered, filterable query plus an inequality
  predicate on a named key and a row limit; returns an ordered sequence of items", and
  "offset+limit windowing and, separately, a count of matching rows ignoring the window").
  The rows of the statement, already in its order, are filtered by the strict
  inequalities on the key and then windowed by offset and limit; a count counts the rows
  of its subquery. Where the spec is silent the table behaves as SQLite does behind
  Python's driver: a limit or offset is bound as a 64-bit integer, and one that does not
  fit raises \<open>OverflowError\<close> before anything is executed; a negative limit is no limit, a
  negative offset is no offset; the bound of an inequality arrives as text, is compared
  as an integer with an integer key when it is a decimal integer literal, and otherwise
  sorts after every integer.
\<close>

fun digits_value :: "nat \<Rightarrow> pystr \<Rightarrow> nat option" where
  "digits_value acc [] = Some acc"
| "digits_value acc (d # ds) =
     (if 48 \<le> d \<and> d \<le> 57 then digits_value (acc * 10 + (d - 48)) ds else None)"

definition cast_int :: "pystr \<Rightarrow> int option" where
  "cast_int s =
     (case s of
        [] \<Rightarrow> None
      | d # ds \<Rightarrow>
          if d = 45 then (if ds = [] then None else map_option (\<lambda>n. - int n) (digits_value 0 ds))
          else map_option int (digits_value 0 s))"

fun str_less :: "pystr \<Rightarrow> pystr \<Rightarrow> bool" where
  "str_less [] [] = False"
| "str_less [] (y # ys) = True"
| "str_less (x # xs) [] = False"
| "str_less (x # xs) (y # ys) = (x < y \<or> (x = y \<and> str_less xs ys))"

text \<open>
  \<open>key_after k v\<close>: the key is strictly greater than the bound \<open>v\<close>; \<open>key_before k v\<close>: it
  is strictly less.
\<close>

fun key_after :: "pyval \<Rightarrow> pystr \<Rightarrow> bool" where
  "key_after (PyInt k) v = (case cast_int v of Some n \<Rightarrow> n < k | None \<Rightarrow> False)"
| "key_after (PyStr k) v = str_less v k"

fun key_before :: "pyval \<Rightarrow> pystr \<Rightarrow> bool" where
  "key_before (PyInt k) v = (case cast_int v of Some n \<Rightarrow> k < n | None \<Rightarrow> True)"
| "key_before (PyStr k) v = str_less k v"

text \<open>A row without the column of a criterion is an error of the engine.\<close>

fun satisfies :: "item \<Rightarrow> criterion \<Rightarrow> bool option" where
  "satisfies row (Gt col v) =
     (case map_of row col of None \<Rightarrow> None | Some k \<Rightarrow> Some (key_after k v))"
| "satisfies row (Lt col v) =
     (case map_of row col of None \<Rightarrow> None | Some k \<Rightarrow> Some (key_before k v))"

fun satisfies_all :: "item \<Rightarrow> criterion list \<Rightarrow> bool option" where
  "satisfies_all row [] = Some True"
| "satisfies_all row (c # cs) =
     (case satisfies row c of
        None \<Rightarrow> None
      | Some b \<Rightarrow> (case satisfies_all row cs of None \<Rightarrow> None | Some b' \<Rightarrow> Some (b \<and> b')))"

fun filter_rows :: "criterion list \<Rightarrow> item list \<Rightarrow> py_error + item list" where
  "filter_rows cs [] = Inr []"
| "filter_rows cs (row # rows) =
     (case satisfies_all row cs of
        None \<Rightarrow> Inl SQLAlchemyError
      | Some b \<Rightarrow> bind_err (filter_rows cs rows) (\<lambda>kept. Inr (if b then row # kept else kept)))"

text \<open>The integers the driver can bind.\<close>

definition fits_int64 :: "int \<Rightarrow> bool" where
  "fits_int64 n = (- (2 ^ 63) \<le> n \<and> n < 2 ^ 63)"

definition binds :: "'s select \<Rightarrow> bool" where
  "binds q =
     ((case limit_clause q of Some k \<Rightarrow> fits_int64 k | None \<Rightarrow> True)
      \<and> (case offset_clause q of Some n \<Rightarrow> fits_int64 n | None \<Rightarrow> True))"

text \<open>The window \<open>LIMIT k OFFSET n\<close>.\<close>

definition window :: "int option \<Rightarrow> int option \<Rightarrow> item list \<Rightarrow> item list" where
  "window off l rows =
     (let skipped = (case off of Some n \<Rightarrow> drop (nat n) rows | None \<Rightarrow> rows)
      in case l of
           Some k \<Rightarrow> if k < 0 then skipped else take (nat k) skipped
         | None \<Rightarrow> skipped)"

definition run_select :: "item list \<Rightarrow> 's select \<Rightarrow> py_error + item list" where
  "run_select rows q =
     (if \<not> binds q then Inl OverflowError
      else bind_err (filter_rows (whereclause q) rows)
             (\<lambda>kept. Inr (window (offset_clause q) (limit_clause q) kept)))"

fun table_scalars_all :: "item list \<Rightarrow> 's executable \<Rightarrow> py_error + item list" where
  "table_scalars_all rows (Rows q) = run_select rows q"
| "table_scalars_all rows (Count_of q) = Inl SQLAlchemyError"

fun table_scalar :: "item list \<Rightarrow> 's executable \<Rightarrow> py_error + int option" where
  "table_scalar rows (Count_of q) =
     bind_err (run_select rows q) (\<lambda>found. Inr (Some (int (length found))))"
| "table_scalar rows (Rows q) = Inl SQLAlchemyError"

definition table_session :: "item list \<Rightarrow> 's session" where
  "table_session rows =
     \<lparr>scalars_all = table_scalars_all rows, scalar = table_scalar rows, executed = []\<rparr>"

text \<open>The collection of the scenarios: one row per key, the key in column \<open>id\<close>.\<close>

definition users :: "int list \<Rightarrow> item list" where
  "users keys = map (\<lambda>k. [(''id'', PyInt k)]) keys"

section \<open>Notions of the specification and example data\<close>

text \<open>
  The strings RFC 4648 admits (what \<open>b64decode\<close> with \<open>validate=True\<close> accepts): symbols
  of the alphabet, then at most two pads, four characters per quad. The spec's
  "invalid encoding" is a string that is not one of these.
\<close>

definition valid_base64 :: "pystr \<Rightarrow> bool" where
  "valid_base64 s =
     (length s mod 4 = 0
      \<and> list_all (\<lambda>c. b64_index c \<noteq> None) (takeWhile (\<lambda>c. c \<noteq> 61) s)
      \<and> length (dropWhile (\<lambda>c. c \<noteq> 61) s) \<le> 2
      \<and> list_all (\<lambda>c. c = 61) (dropWhile (\<lambda>c. c \<noteq> 61) s))"

text \<open>Example data: a configuration, and the key column of \<open>users\<close>.\<close>

definition cfg100 :: config where
  "cfg100 = \<lparr>defaultPageSize = 20, maxPageSize = 100\<rparr>"

definition id_column :: column where
  "id_column = \<lparr>name = ''id''\<rparr>"

section \<open>UTF-8 and base64 decode what they encode\<close>

lemma div_join: "r < n \<Longrightarrow> (q * n + r) div n = (q::nat)"
  by simp

lemma mod_join: "r < n \<Longrightarrow> (q * n + r) mod n = (r::nat)"
  by simp

lemma div_4096: "(c::nat) div 4096 = c div 64 div 64"
proof -
  have "c div 4096 = c div (64 * 64)" by simp
  also have "\<dots> = c div 64 div 64" by (rule div_mult2_eq)
  finally show ?thesis .
qed

lemma div_262144: "(c::nat) div 262144 = c div 64 div 64 div 64"
proof -
  have "c div 262144 = c div (64 * 64 * 64)" by simp
  also have "\<dots> = c div 64 div 64 div 64" by (simp only: div_mult2_eq)
  finally show ?thesis .
qed

lemma radix64:
  fixes c :: nat
  obtains z C B A where "A < 64" "B < 64" "C < 64" "c = ((z * 64 + C) * 64 + B) * 64 + A"
proof
  show "c mod 64 < 64" "c div 64 mod 64 < 64" "c div 64 div 64 mod 64 < 64" by simp_all
  show "c = ((c div 64 div 64 div 64 * 64 + c div 64 div 64 mod 64) * 64 + c div 64 mod 64) * 64 + c mod 64"
    by simp
qed

lemma radix64_parts:
  assumes "A < 64" "B < 64" "C < 64" "(c::nat) = ((z * 64 + C) * 64 + B) * 64 + A"
  shows "c mod 64 = A" "c div 64 mod 64 = B" "c div 4096 mod 64 = C" "c div 262144 = z"
    "c div 4096 = z * 64 + C" "c div 64 = (z * 64 + C) * 64 + B"
proof -
  show a: "c mod 64 = A" using assms(1) by (simp only: assms(4) mod_join)
  show d1: "c div 64 = (z * 64 + C) * 64 + B" using assms(1) by (simp only: assms(4) div_join)
  show "c div 64 mod 64 = B" using assms(2) by (simp only: d1 mod_join)
  have d2: "c div 64 div 64 = z * 64 + C" using assms(2) by (simp only: d1 div_join)
  show "c div 4096 = z * 64 + C" by (simp only: div_4096 d2)
  show "c div 4096 mod 64 = C" using assms(3) by (simp only: div_4096 d2 mod_join)
  show "c div 262144 = z" using assms(3) by (simp only: div_262144 d2 div_join)
qed

lemma dec1: "c < 0x80 \<Longrightarrow> bytes_decode (c # rest) = bind_err (bytes_decode rest) (\<lambda>s. Inr (c # s))"
  by simp

lemma dec2:
  assumes "0x80 \<le> c" "c < 0x800"
  shows "bytes_decode ((0xC0 + c div 64) # (0x80 + c mod 64) # rest)
         = bind_err (bytes_decode rest) (\<lambda>s. Inr (c # s))"
proof -
  have l: "\<not> 0xC0 + c div 64 < (0x80::nat)" "0xC2 \<le> 0xC0 + c div 64" "0xC0 + c div 64 < 0xE0"
    using assms by arith+
  have k: "is_cont (0x80 + c mod 64)" by (simp add: is_cont_def)
  have e: "(0xC0 + c div 64 - 0xC0) * 64 + (0x80 + c mod 64 - 0x80) = c" by simp
  show ?thesis
    by (simp only: bytes_decode.simps l k e list.case if_True if_False simp_thms)
qed

lemma dec3:
  assumes "0x800 \<le> c" "c < 0x10000" "\<not> (0xD800 \<le> c \<and> c < 0xE000)"
  shows "bytes_decode ((0xE0 + c div 4096) # (0x80 + c div 64 mod 64) # (0x80 + c mod 64) # rest)
         = bind_err (bytes_decode rest) (\<lambda>s. Inr (c # s))"
proof -
  obtain z C B A where r: "A < 64" "B < 64" "C < 64" "c = ((z * 64 + C) * 64 + B) * 64 + A"
    by (rule radix64)
  note p = radix64_parts[OF r]
  have c: "c = 262144 * z + 4096 * C + 64 * B + A" by (simp add: r(4))
  have z0: "z = 0" using assms(2) c by linarith
  have d: "c div 4096 = C" by (simp add: p(5) z0)
  have y1: "C < 16" using assms(2) c by linarith
  have y2: "C = 0 \<longrightarrow> 32 \<le> B" using assms(1) c r(1) z0 by linarith
  have y3: "C = 13 \<longrightarrow> B < 32" using assms(3) c r(1,2) z0 by arith
  have l: "\<not> 0xE0 + C < (0x80::nat)" "\<not> (0xC2 \<le> 0xE0 + C \<and> 0xE0 + C < 0xE0)"
    "0xE0 \<le> 0xE0 + C \<and> 0xE0 + C < 0xF0"
    using y1 by simp_all
  have lo: "(if 0xE0 + C = 0xE0 then 0xA0 else 0x80) \<le> 0x80 + B"
    using y2 by simp
  have hi: "0x80 + B < (if 0xE0 + C = 0xED then 0xA0 else 0xC0)"
    using y3 r(2) by simp
  have k: "is_cont (0x80 + A)" using r(1) by (simp add: is_cont_def)
  have e: "(0xE0 + C - 0xE0) * 4096 + (0x80 + B - 0x80) * 64 + (0x80 + A - 0x80) = c"
    by (simp add: c z0)
  show ?thesis
    by (simp only: p(1,2) d bytes_decode.simps l lo hi k e list.case if_True if_False simp_thms)
qed

lemma dec4:
  assumes "0x10000 \<le> c" "c < 0x110000"
  shows "bytes_decode ((0xF0 + c div 262144) # (0x80 + c div 4096 mod 64)
            # (0x80 + c div 64 mod 64) # (0x80 + c mod 64) # rest)
         = bind_err (bytes_decode rest) (\<lambda>s. Inr (c # s))"
proof -
  obtain z C B A where r: "A < 64" "B < 64" "C < 64" "c = ((z * 64 + C) * 64 + B) * 64 + A"
    by (rule radix64)
  note p = radix64_parts[OF r]
  have c: "c = 262144 * z + 4096 * C + 64 * B + A" by (simp add: r(4))
  have z1: "z < 5" using assms(2) c by linarith
  have z2: "z = 0 \<longrightarrow> 16 \<le> C" using assms(1) c r(1,2) by linarith
  have z3: "z = 4 \<longrightarrow> C < 16" using assms(2) c by linarith
  have l: "\<not> 0xF0 + z < (0x80::nat)" "\<not> (0xC2 \<le> 0xF0 + z \<and> 0xF0 + z < 0xE0)"
    "\<not> (0xE0 \<le> 0xF0 + z \<and> 0xF0 + z < 0xF0)" "0xF0 \<le> 0xF0 + z \<and> 0xF0 + z < 0xF5"
    using z1 by simp_all
  have lo: "(if 0xF0 + z = 0xF0 then 0x90 else 0x80) \<le> 0x80 + C"
    using z2 by simp
  have hi: "0x80 + C < (if 0xF0 + z = 0xF4 then 0x90 else 0xC0)"
    using z3 r(3) by simp
  have k: "is_cont (0x80 + A)" "is_cont (0x80 + B)" using r(1,2) by (simp_all add: is_cont_def)
  have e: "(0xF0 + z - 0xF0) * 262144 + (0x80 + C - 0x80) * 4096 + (0x80 + B - 0x80) * 64
             + (0x80 + A - 0x80) = c"
    by (simp add: c)
  show ?thesis
    by (simp only: p(1-4) bytes_decode.simps l lo hi k e list.case if_True if_False simp_thms)
qed


lemma b64_index_char: "n < 64 \<Longrightarrow> b64_index (b64_char n) = Some n"
  by (auto simp: b64_index_def b64_char_def)

lemma b64_char_not_pad: "n < 64 \<Longrightarrow> b64_char n \<noteq> 61"
  by (auto simp: b64_char_def)

lemma b64_char_ascii: "n < 64 \<Longrightarrow> b64_char n < 128"
  by (auto simp: b64_char_def)

lemma sextets:
  assumes "(a::nat) < 256" "(b::nat) < 256" "(c::nat) < 256"
  shows "a div 4 < 64" "a mod 4 * 16 + b div 16 < 64" "b mod 16 * 4 + c div 64 < 64"
    "c mod 64 < 64" "a mod 4 * 16 < 64" "b mod 16 * 4 < 64"
    "b div 16 < 16" "c div 64 < 4"
  using assms by arith+

lemma a2b_data:
  "b64_index ch = Some v \<Longrightarrow> ch \<noteq> 61 \<Longrightarrow>
   a2b_base64 q l p out (ch # rest) =
     (if q = 0 then a2b_base64 1 v 0 out rest
      else if q = 1 then a2b_base64 2 (v mod 16) 0 (out @ [l * 4 + v div 16]) rest
      else if q = 2 then a2b_base64 3 (v mod 4) 0 (out @ [l * 16 + v div 4]) rest
      else a2b_base64 0 0 0 (out @ [l * 64 + v]) rest)"
  by simp

lemma a2b_pad:
  "a2b_base64 q l p out (61 # rest) =
     (if q \<ge> 2 then (if q + (p + 1) \<ge> 4 then Inr out else a2b_base64 q l (p + 1) out rest)
      else a2b_base64 q l p out rest)"
  by simp

lemma a2b_quad:
  assumes "a < 256" "b < 256" "c < 256"
  shows "a2b_base64 0 l p out
           (b64_char (a div 4) # b64_char (a mod 4 * 16 + b div 16)
            # b64_char (b mod 16 * 4 + c div 64) # b64_char (c mod 64) # rest)
         = a2b_base64 0 0 0 (out @ [a, b, c]) rest"
proof -
  note r = sextets[OF assms]
  have e1: "a div 4 * 4 + (a mod 4 * 16 + b div 16) div 16 = a"
    using r(7) by (simp add: div_join)
  have e2: "(a mod 4 * 16 + b div 16) mod 16 * 16 + (b mod 16 * 4 + c div 64) div 4 = b"
    using r(7,8) by (simp add: div_join mod_join)
  have e3: "(b mod 16 * 4 + c div 64) mod 4 * 64 + c mod 64 = c"
    using r(8) by (simp add: mod_join)
  show ?thesis
    using r(1-4)
    by (simp only: a2b_data[OF b64_index_char b64_char_not_pad] e1 e2 e3) simp
qed

lemma a2b_tail1:
  assumes "a < 256"
  shows "a2b_base64 0 l p out [b64_char (a div 4), b64_char (a mod 4 * 16), 61, 61]
         = Inr (out @ [a])"
proof -
  note r = sextets[OF assms assms assms]
  have e1: "a div 4 * 4 + (a mod 4 * 16) div 16 = a"
    by simp
  show ?thesis
    using r(1,5)
    by (simp only: a2b_data[OF b64_index_char b64_char_not_pad] a2b_pad e1) simp
qed

lemma a2b_tail2:
  assumes "a < 256" "b < 256"
  shows "a2b_base64 0 l p out
           [b64_char (a div 4), b64_char (a mod 4 * 16 + b div 16), b64_char (b mod 16 * 4), 61]
         = Inr (out @ [a, b])"
proof -
  note r = sextets[OF assms assms(1)]
  have e1: "a div 4 * 4 + (a mod 4 * 16 + b div 16) div 16 = a"
    using r(7) by (simp add: div_join)
  have e2: "(a mod 4 * 16 + b div 16) mod 16 * 16 + (b mod 16 * 4) div 4 = b"
    using r(7) by (simp add: mod_join)
  show ?thesis
    using r(1,2,6)
    by (simp only: a2b_data[OF b64_index_char b64_char_not_pad] a2b_pad e1 e2) simp
qed

lemma a2b_b64encode:
  "\<forall>b\<in>set bs. b < 256 \<Longrightarrow> a2b_base64 0 l p out (b64encode bs) = Inr (out @ bs)"
proof (induction bs arbitrary: l p out rule: b64encode.induct)
  case 1
  show ?case by simp
next
  case (2 a)
  then show ?case by (simp only: b64encode.simps a2b_tail1 list.set ball_simps)
next
  case (3 a b)
  then show ?case by (simp only: b64encode.simps a2b_tail2 list.set ball_simps)
next
  case (4 a b c rest)
  then have a: "a < 256" "b < 256" "c < 256" and rest: "\<forall>b\<in>set rest. b < 256" by simp_all
  show ?case
    by (simp only: b64encode.simps append.simps a2b_quad[OF a] "4.IH"[OF rest] append_assoc)
qed

lemma b64decode_b64encode: "\<forall>b\<in>set bs. b < 256 \<Longrightarrow> b64decode (b64encode bs) = Inr bs"
  by (simp add: b64decode_def a2b_b64encode)

lemma b64encode_ascii: "\<forall>b\<in>set bs. b < 256 \<Longrightarrow> \<forall>c\<in>set (b64encode bs). c < 128"
proof (induction bs rule: b64encode.induct)
  case 1
  show ?case by simp
next
  case (2 a)
  then have "a < 256" by simp
  from sextets[OF this this this] show ?case by (simp add: b64_char_ascii)
next
  case (3 a b)
  then have "a < 256" "b < 256" by simp_all
  from sextets[OF this this(1)] show ?case by (simp add: b64_char_ascii)
next
  case (4 a b c rest)
  then have a: "a < 256" "b < 256" "c < 256" and rest: "\<forall>b\<in>set rest. b < 256" by simp_all
  from sextets[OF a] "4.IH"[OF rest] show ?case by (simp add: b64_char_ascii)
qed


lemma bytes_decode_cp:
  assumes "utf8_encode_cp c = Inr bs"
  shows "bytes_decode (bs @ rest) = bind_err (bytes_decode rest) (\<lambda>s. Inr (c # s))"
proof -
  consider (one) "c < 0x80"
    | (two) "0x80 \<le> c" "c < 0x800"
    | (three) "0x800 \<le> c" "c < 0x10000" "\<not> (0xD800 \<le> c \<and> c < 0xE000)"
    | (sur) "0x800 \<le> c" "c < 0x10000" "0xD800 \<le> c \<and> c < 0xE000"
    | (four) "0x10000 \<le> c" "c < 0x110000"
    | (big) "0x110000 \<le> c"
    by linarith
  then show ?thesis
  proof cases
    case one
    with assms have "bs = [c]" by (simp add: utf8_encode_cp_def)
    then show ?thesis by (simp only: append.simps dec1[OF one])
  next
    case two
    with assms have "bs = [0xC0 + c div 64, 0x80 + c mod 64]" by (simp add: utf8_encode_cp_def)
    then show ?thesis by (simp only: append.simps dec2[OF two])
  next
    case three
    with assms have "bs = [0xE0 + c div 4096, 0x80 + c div 64 mod 64, 0x80 + c mod 64]"
      by (simp add: utf8_encode_cp_def)
    then show ?thesis by (simp only: append.simps dec3[OF three])
  next
    case sur
    with assms show ?thesis by (simp add: utf8_encode_cp_def)
  next
    case four
    with assms have "bs = [0xF0 + c div 262144, 0x80 + c div 4096 mod 64, 0x80 + c div 64 mod 64,
             0x80 + c mod 64]"
      by (simp add: utf8_encode_cp_def)
    then show ?thesis by (simp only: append.simps dec4[OF four])
  next
    case big
    with assms show ?thesis by (simp add: utf8_encode_cp_def)
  qed
qed

lemma bind_err_Inr: "bind_err m f = Inr y \<Longrightarrow> \<exists>x. m = Inr x \<and> f x = Inr y"
  by (cases m) auto

lemma bytes_decode_str_encode: "str_encode s = Inr bs \<Longrightarrow> bytes_decode bs = Inr s"
proof (induction s arbitrary: bs)
  case Nil
  then show ?case by simp
next
  case (Cons c cs)
  from Cons.prems obtain b1 rest where
    b1: "utf8_encode_cp c = Inr b1" and rest: "str_encode cs = Inr rest" and bs: "bs = b1 @ rest"
    by (auto dest!: bind_err_Inr)
  show ?case
    by (simp add: bs bytes_decode_cp[OF b1] Cons.IH[OF rest])
qed

lemma utf8_encode_cp_bytes:
  assumes "utf8_encode_cp c = Inr bs"
  shows "\<forall>b\<in>set bs. b < 256"
proof -
  have m: "0x80 + c mod 64 < 256" "0x80 + c div 64 mod 64 < 256" "0x80 + c div 4096 mod 64 < 256"
    using mod_less_divisor[of 64 c] mod_less_divisor[of 64 "c div 64"] mod_less_divisor[of 64 "c div 4096"]
    by simp_all
  consider (one) "c < 0x80"
    | (two) "0x80 \<le> c" "c < 0x800"
    | (three) "0x800 \<le> c" "c < 0x10000"
    | (four) "0x10000 \<le> c" "c < 0x110000"
    | (big) "0x110000 \<le> c"
    by linarith
  then show ?thesis
  proof cases
    case one
    with assms have "bs = [c]" by (simp add: utf8_encode_cp_def)
    with one show ?thesis by simp
  next
    case two
    with assms have "bs = [0xC0 + c div 64, 0x80 + c mod 64]" by (simp add: utf8_encode_cp_def)
    moreover have "c div 64 < 32" using two by (simp add: less_mult_imp_div_less)
    ultimately show ?thesis using m by simp
  next
    case three
    with assms have "bs = [0xE0 + c div 4096, 0x80 + c div 64 mod 64, 0x80 + c mod 64]"
      by (simp add: utf8_encode_cp_def split: if_splits)
    moreover have "c div 4096 < 16" using three by (simp add: less_mult_imp_div_less)
    ultimately show ?thesis using m by simp
  next
    case four
    with assms have "bs = [0xF0 + c div 262144, 0x80 + c div 4096 mod 64, 0x80 + c div 64 mod 64,
             0x80 + c mod 64]"
      by (simp add: utf8_encode_cp_def)
    moreover have "c div 262144 < 5" using four by (simp add: less_mult_imp_div_less)
    ultimately show ?thesis using m by simp
  next
    case big
    with assms show ?thesis by (simp add: utf8_encode_cp_def)
  qed
qed

lemma str_encode_bytes: "str_encode s = Inr bs \<Longrightarrow> \<forall>b\<in>set bs. b < 256"
proof (induction s arbitrary: bs)
  case Nil
  then show ?case by simp
next
  case (Cons c cs)
  from Cons.prems obtain b1 rest where
    b1: "utf8_encode_cp c = Inr b1" and rest: "str_encode cs = Inr rest" and bs: "bs = b1 @ rest"
    by (auto dest!: bind_err_Inr)
  show ?case
    using utf8_encode_cp_bytes[OF b1] Cons.IH[OF rest] by (auto simp: bs)
qed

lemma str_encode_ascii: "\<forall>c\<in>set s. c < 128 \<Longrightarrow> str_encode s = Inr s"
  by (induction s) (simp_all add: utf8_encode_cp_def)

lemma bytes_decode_ascii: "\<forall>c\<in>set s. c < 128 \<Longrightarrow> bytes_decode s = Inr s"
  by (induction s) simp_all

section \<open>Properties of the cursor codec and of the cursor pager\<close>

lemma utf8_encode_cp_ok:
  "c < 0xD800 \<or> (0xE000 \<le> c \<and> c < 0x110000) \<Longrightarrow> \<exists>bs. utf8_encode_cp c = Inr bs"
  by (auto simp: utf8_encode_cp_def)

lemma str_encode_ok: "encodable s \<Longrightarrow> \<exists>bs. str_encode s = Inr bs"
proof (induction s)
  case Nil
  show ?case by simp
next
  case (Cons c cs)
  then obtain b1 rest where "utf8_encode_cp c = Inr b1" "str_encode cs = Inr rest"
    using utf8_encode_cp_ok[of c] by (auto simp: encodable_def)
  then show ?case by simp
qed

lemma decode_encode_cursor:
  assumes "str_encode s = Inr raw"
  shows "bytes_decode (b64encode raw) = Inr (b64encode raw)"
    and "decode_cursor (b64encode raw) = Inr s"
proof -
  have bytes: "\<forall>b\<in>set raw. b < 256" by (rule str_encode_bytes[OF assms])
  have asc: "\<forall>c\<in>set (b64encode raw). c < 128" by (rule b64encode_ascii[OF bytes])
  show "bytes_decode (b64encode raw) = Inr (b64encode raw)" by (rule bytes_decode_ascii[OF asc])
  have "decode_cursor_try (b64encode raw) = Inr s"
    by (simp add: decode_cursor_try_def str_encode_ascii[OF asc] b64decode_b64encode[OF bytes]
        bytes_decode_str_encode[OF assms])
  then show "decode_cursor (b64encode raw) = Inr s" by (simp add: decode_cursor_def)
qed

lemma cursor_round_trip_str:
  assumes "py_str x = Inr t" "encodable t"
  shows "cursor_round_trip x = Inr (PyStr t)"
proof -
  obtain raw where raw: "str_encode t = Inr raw"
    using str_encode_ok[OF assms(2)] by blast
  show ?thesis
    by (simp add: cursor_round_trip_def encode_cursor_def assms(1) raw
        decode_encode_cursor[OF raw])
qed

lemma decode_cursor_total: "\<exists>s. decode_cursor c = Inr s"
  by (simp add: decode_cursor_def split: sum.split)

lemma decode_cursor_empty: "decode_cursor [] = Inr []"
  by (simp add: decode_cursor_def decode_cursor_try_def b64decode_def)

lemma cursor_value_of_falsy:
  assumes "decode_cursor c = Inr []"
  shows "\<exists>v. cursor_value_of (Some c) = Inr v \<and> \<not> truthy v"
  by (simp add: cursor_value_of_def assms)

lemma cursor_value_of_truthy:
  "cursor_value_of c = Inr v \<Longrightarrow> truthy v \<longleftrightarrow> (\<exists>s. c = Some s \<and> decode_cursor s \<noteq> Inr [])"
  using decode_cursor_empty decode_cursor_total
  by (cases c) (auto simp: cursor_value_of_def split: if_splits dest!: bind_err_Inr)

lemma cursor_value_of_total: "\<exists>v. cursor_value_of c = Inr v"
proof (cases c)
  case None
  then show ?thesis by (simp add: cursor_value_of_def)
next
  case (Some s)
  obtain t where "decode_cursor s = Inr t" using decode_cursor_total by blast
  with Some show ?thesis by (simp add: cursor_value_of_def)
qed

lemma cursor_query_falsy:
  "\<not> truthy v \<Longrightarrow> cursor_query q col v d L = limit_sel q (L + 1)"
  by (cases v) (simp_all add: cursor_query_def)

lemma generate_cursors_falsy:
  "\<not> truthy v \<Longrightarrow> generate_cursors items hm v col = generate_cursors items hm None col"
  by (simp add: generate_cursors_def)

lemma cursor_paginate_falsy:
  assumes "cursor_value_of c = Inr v" "\<not> truthy v"
  shows "cursor_paginate cfg db q col \<lparr>cursor = c, limit = l\<rparr> d
         = cursor_paginate cfg db q col \<lparr>cursor = None, limit = l\<rparr> d"
proof -
  have n: "cursor_value_of None = Inr None" by (simp add: cursor_value_of_def)
  have t: "\<not> truthy None" by simp
  show ?thesis
    by (simp only: cursor_paginate_def assms(1) n CursorPaginationParams.simps sum.case
        cursor_query_falsy[OF assms(2)] cursor_query_falsy[OF t]
        generate_cursors_falsy[OF assms(2)])
qed

lemma cursor_paginate_executed:
  "\<exists>v. cursor_value_of (cursor params) = Inr v \<and>
     executed (fst (cursor_paginate cfg db q col params d))
       = executed db @ [Rows (cursor_query q col v d (min (limit params) (maxPageSize cfg)))]"
proof -
  obtain v where v: "cursor_value_of (cursor params) = Inr v"
    using cursor_value_of_total by blast
  show ?thesis
    by (rule exI[of _ v])
       (simp add: v cursor_paginate_def execute_scalars_all_def Let_def split: sum.split)
qed

lemma cursor_paginate_Inr:
  assumes "cursor_paginate cfg db q col params d = (db', Inr (items, nc, pc))"
  obtains v fetched where
    "cursor_value_of (cursor params) = Inr v"
    "db' = db\<lparr>executed := executed db
              @ [Rows (cursor_query q col v d (min (limit params) (maxPageSize cfg)))]\<rparr>"
    "scalars_all db (Rows (cursor_query q col v d (min (limit params) (maxPageSize cfg))))
       = Inr fetched"
    "items = (if has_more_items fetched (min (limit params) (maxPageSize cfg))
              then slice_to fetched (min (limit params) (maxPageSize cfg)) else fetched)"
    "generate_cursors items (has_more_items fetched (min (limit params) (maxPageSize cfg))) v col
       = Inr (nc, pc)"
proof -
  obtain v where v: "cursor_value_of (cursor params) = Inr v"
    using cursor_value_of_total by blast
  let ?L = "min (limit params) (maxPageSize cfg)"
  let ?q = "Rows (cursor_query q col v d ?L)"
  from assms v obtain fetched where f: "scalars_all db ?q = Inr fetched"
    by (cases "scalars_all db ?q") (auto simp: cursor_paginate_def execute_scalars_all_def Let_def)
  from assms v f show ?thesis
    by (intro that[of v fetched])
       (auto simp: cursor_paginate_def execute_scalars_all_def Let_def split: prod.splits
          dest!: bind_err_Inr)
qed

lemma slice_to_take: "0 \<le> n \<Longrightarrow> slice_to xs n = take (nat n) xs"
  by (simp add: slice_to_def)

lemma cursor_query_limit: "limit_clause (cursor_query q col v d L) = Some (L + 1)"
  by (simp add: cursor_query_def limit_sel_def)

lemma generate_cursors_next:
  assumes "generate_cursors items hm v col = Inr (nc, pc)"
  shows "(nc \<noteq> None \<longleftrightarrow> hm \<and> items \<noteq> [])"
    and "\<And>c. nc = Some c \<Longrightarrow>
           \<exists>k. getattr (last items) (name col) = Inr k \<and> encode_cursor k = Inr c"
    and "(pc \<noteq> None \<longleftrightarrow> truthy v \<and> items \<noteq> [])"
    and "\<And>c. pc = Some c \<Longrightarrow>
           \<exists>k. getattr (hd items) (name col) = Inr k \<and> encode_cursor k = Inr c"
  using assms
  by (auto simp: generate_cursors_def split: if_splits dest!: bind_err_Inr)

lemma b64_index_Some: "b64_index c = Some v \<Longrightarrow> c < 128 \<and> c \<noteq> 61 \<and> v < 64"
  by (auto simp: b64_index_def split: if_splits)

lemma a2b_data_only:
  "list_all (\<lambda>x. b64_index x \<noteq> None) cs \<Longrightarrow> q < 4 \<Longrightarrow> (q + length cs) mod 4 \<noteq> 0
   \<Longrightarrow> a2b_base64 q l p out cs = Inl Binascii_Error"
proof (induction cs arbitrary: q l p out)
  case Nil
  then show ?case by simp
next
  case (Cons c cs)
  then obtain v where v: "b64_index c = Some v" by auto
  then have ne: "c \<noteq> 61" using b64_index_Some by blast
  have rest: "list_all (\<lambda>x. b64_index x \<noteq> None) cs" using Cons.prems(1) by simp
  consider "q = 0" | "q = 1" | "q = 2" | "q = 3" using Cons.prems(2) by linarith
  then show ?case
  proof cases
    case 1
    have "(1 + length cs) mod 4 \<noteq> 0" using Cons.prems(3) 1 by simp
    from Cons.IH[OF rest _ this] show ?thesis by (simp only: a2b_data[OF v ne] 1) simp
  next
    case 2
    have "(2 + length cs) mod 4 \<noteq> 0" using Cons.prems(3) 2 by (simp add: add.commute)
    from Cons.IH[OF rest _ this] show ?thesis by (simp only: a2b_data[OF v ne] 2) simp
  next
    case 3
    have "(3 + length cs) mod 4 \<noteq> 0" using Cons.prems(3) 3 by (simp add: add.commute)
    from Cons.IH[OF rest _ this] show ?thesis by (simp only: a2b_data[OF v ne] 3) simp
  next
    case 4
    have "(0 + length cs) mod 4 \<noteq> 0" using Cons.prems(3) 4 by (simp add: add.commute)
    from Cons.IH[OF rest _ this] show ?thesis by (simp only: a2b_data[OF v ne] 4) simp
  qed
qed

lemma decode_cursor_bad_length:
  assumes "list_all (\<lambda>x. b64_index x \<noteq> None) c" "length c mod 4 \<noteq> 0"
  shows "decode_cursor c = Inr []"
proof -
  have "\<forall>x\<in>set c. x < 128"
    using assms(1) b64_index_Some by (fastforce simp: list_all_iff)
  then have enc: "str_encode c = Inr c" by (rule str_encode_ascii)
  have "b64decode c = Inl Binascii_Error"
    unfolding b64decode_def using assms by (intro a2b_data_only) simp_all
  then show ?thesis by (simp add: decode_cursor_def decode_cursor_try_def enc)
qed

lemma encode_cursor_empty: "encode_cursor (PyStr []) = Inr []"
  by (simp add: encode_cursor_def)

lemma decode_cursor_caught: "decode_cursor_try c = Inl e \<Longrightarrow> decode_cursor c = Inr []"
  by (simp add: decode_cursor_def)

lemma cursor_paginate_undecodable:
  assumes "decode_cursor c = Inr []"
  shows "cursor_paginate cfg db q col \<lparr>cursor = Some c, limit = l\<rparr> d
         = cursor_paginate cfg db q col \<lparr>cursor = None, limit = l\<rparr> d"
    and "executed (fst (cursor_paginate cfg db q col \<lparr>cursor = Some c, limit = l\<rparr> d))
         = executed db @ [Rows (limit_sel q (min l (maxPageSize cfg) + 1))]"
    and "snd (cursor_paginate cfg db q col \<lparr>cursor = Some c, limit = l\<rparr> d) = Inr (items, nc, pc)
         \<Longrightarrow> pc = None"
proof -
  obtain v where v: "cursor_value_of (Some c) = Inr v" "\<not> truthy v"
    using cursor_value_of_falsy[OF assms] by blast
  show "cursor_paginate cfg db q col \<lparr>cursor = Some c, limit = l\<rparr> d
         = cursor_paginate cfg db q col \<lparr>cursor = None, limit = l\<rparr> d"
    by (rule cursor_paginate_falsy[OF v])
  show "executed (fst (cursor_paginate cfg db q col \<lparr>cursor = Some c, limit = l\<rparr> d))
         = executed db @ [Rows (limit_sel q (min l (maxPageSize cfg) + 1))]"
    using cursor_paginate_executed[of "\<lparr>cursor = Some c, limit = l\<rparr>" cfg db q col d] v
    by (auto simp: cursor_query_falsy)
  assume r: "snd (cursor_paginate cfg db q col \<lparr>cursor = Some c, limit = l\<rparr> d) = Inr (items, nc, pc)"
  then obtain db' where
    "cursor_paginate cfg db q col \<lparr>cursor = Some c, limit = l\<rparr> d = (db', Inr (items, nc, pc))"
    by (cases "cursor_paginate cfg db q col \<lparr>cursor = Some c, limit = l\<rparr> d") simp
  then obtain w fetched where
    w: "cursor_value_of (cursor \<lparr>cursor = Some c, limit = l\<rparr>) = Inr w"
    and "db' = db\<lparr>executed := executed db
              @ [Rows (cursor_query q col w d
                   (min (limit \<lparr>cursor = Some c, limit = l\<rparr>) (maxPageSize cfg)))]\<rparr>"
    and "scalars_all db (Rows (cursor_query q col w d
            (min (limit \<lparr>cursor = Some c, limit = l\<rparr>) (maxPageSize cfg)))) = Inr fetched"
    and "items = (if has_more_items fetched
                       (min (limit \<lparr>cursor = Some c, limit = l\<rparr>) (maxPageSize cfg))
                  then slice_to fetched
                       (min (limit \<lparr>cursor = Some c, limit = l\<rparr>) (maxPageSize cfg))
                  else fetched)"
    and g: "generate_cursors items
              (has_more_items fetched (min (limit \<lparr>cursor = Some c, limit = l\<rparr>) (maxPageSize cfg)))
              w col = Inr (nc, pc)"
    by (rule cursor_paginate_Inr)
  from w v have "\<not> truthy w" by simp
  with generate_cursors_next(3)[OF g] show "pc = None" by blast
qed

section \<open>Claims about the cursor codec and the cursor pager\<close>

lemma digits_ascii: "\<forall>c\<in>set (digits n). c < 128"
proof (induction n rule: digits.induct)
  case (1 n)
  show ?case
  proof (cases "n < 10")
    case True
    then show ?thesis by (simp add: digits.simps[of n])
  next
    case False
    have "n mod 10 < 10" by simp
    then have "48 + n mod 10 < 128" by linarith
    with False 1 show ?thesis by (simp add: digits.simps[of n])
  qed
qed

lemma encodable_ascii: "\<forall>c\<in>set s. c < 128 \<Longrightarrow> encodable s"
  by (auto simp: encodable_def list_all_iff)

lemma encodable_decimal: "encodable (decimal i)"
  using digits_ascii by (intro encodable_ascii) (auto simp: decimal_def)

lemma digits_length_le: "0 < k \<Longrightarrow> n < 10 ^ k \<Longrightarrow> length (digits n) \<le> k"
proof (induction n arbitrary: k rule: digits.induct)
  case (1 n)
  show ?case
  proof (cases "n < 10")
    case True
    with "1.prems"(1) show ?thesis by (simp add: digits.simps[of n])
  next
    case False
    obtain j where k: "k = Suc j" using "1.prems"(1) by (cases k) simp_all
    have j: "0 < j"
    proof (rule ccontr)
      assume "\<not> 0 < j"
      with k "1.prems"(2) have "n < 10" by simp
      with False show False by simp
    qed
    have "n < 10 * 10 ^ j" using "1.prems"(2) by (simp add: k)
    then have "n div 10 < 10 ^ j" by (simp add: less_mult_imp_div_less mult.commute)
    from "1.IH"[OF False j this] False show ?thesis
      by (simp add: digits.simps[of n] k)
  qed
qed

lemma digits_length_gt: "10 ^ k \<le> n \<Longrightarrow> k < length (digits n)"
proof (induction n arbitrary: k rule: digits.induct)
  case (1 n)
  show ?case
  proof (cases "n < 10")
    case True
    have "k = 0"
    proof (cases k)
      case 0
      then show ?thesis .
    next
      case (Suc j)
      have "(10::nat) \<le> 10 * 10 ^ j" by simp
      also have "\<dots> \<le> n" using "1.prems" by (simp add: Suc)
      finally show ?thesis using True by simp
    qed
    with True show ?thesis by (simp add: digits.simps[of n])
  next
    case False
    show ?thesis
    proof (cases k)
      case 0
      with False show ?thesis by (simp add: digits.simps[of n])
    next
      case (Suc j)
      have "10 ^ j * 10 \<le> n" using "1.prems" by (simp add: Suc mult.commute)
      then have "10 ^ j \<le> n div 10" by (simp add: less_eq_div_iff_mult_less_eq)
      from "1.IH"[OF False this] False show ?thesis
        by (simp add: digits.simps[of n] Suc)
    qed
  qed
qed

lemma int_str_small:
  assumes "\<bar>i\<bar> < 10 ^ nat int_max_str_digits"
  shows "int_str i = Inr (decimal i)"
proof -
  define k where "k = nat int_max_str_digits"
  have k: "0 < k" "int k = int_max_str_digits"
    by (simp_all add: k_def int_max_str_digits_def)
  have "int (nat \<bar>i\<bar>) < int (10 ^ k)" using assms by (simp add: k_def)
  then have "nat \<bar>i\<bar> < 10 ^ k" by (simp only: of_nat_less_iff)
  then have "length (digits (nat \<bar>i\<bar>)) \<le> k" by (rule digits_length_le[OF k(1)])
  then show ?thesis by (simp add: int_str_def flip: k(2))
qed

lemma int_str_large:
  assumes "10 ^ nat int_max_str_digits \<le> \<bar>i\<bar>"
  shows "int_str i = Inl ValueError"
proof -
  define k where "k = nat int_max_str_digits"
  have k: "int k = int_max_str_digits"
    by (simp add: k_def int_max_str_digits_def)
  have "int (10 ^ k) \<le> int (nat \<bar>i\<bar>)" using assms by (simp add: k_def)
  then have "10 ^ k \<le> nat \<bar>i\<bar>" by (simp only: of_nat_le_iff)
  then have "k < length (digits (nat \<bar>i\<bar>))" by (rule digits_length_gt)
  then show ?thesis by (simp add: int_str_def flip: k)
qed

text \<open>
  C1 (amended). Decoding the cursor that encodes a key \<open>x\<close> returns the text \<open>str(x)\<close> of the
  key, for every key that has a text UTF-8 can encode: every string without surrogates
  and every integer of at most \<open>int_max_str_digits\<close> decimal digits, that is of absolute
  value below \<open>10 ^ int_max_str_digits\<close>. For a longer integer \<open>str\<close>, and so
  \<open>encode_cursor\<close> and the round trip, raises \<open>ValueError\<close>. The decoded value is \<open>x\<close> itself
  exactly when \<open>x\<close> is a string.
\<close>

theorem cursor_round_trip_text:
  "(py_str x = Inr t \<and> encodable t \<longrightarrow>
      cursor_round_trip x = Inr (PyStr t)
      \<and> (cursor_round_trip x = Inr x \<longleftrightarrow> (\<exists>s. x = PyStr s)))
   \<and> (encodable s \<longrightarrow> cursor_round_trip (PyStr s) = Inr (PyStr s))
   \<and> (\<bar>i\<bar> < 10 ^ nat int_max_str_digits \<longrightarrow>
        cursor_round_trip (PyInt i) = Inr (PyStr (decimal i)))
   \<and> (10 ^ nat int_max_str_digits \<le> \<bar>i\<bar> \<longrightarrow>
        encode_cursor (PyInt i) = Inl ValueError \<and> cursor_round_trip (PyInt i) = Inl ValueError)"
proof (intro conjI impI)
  assume e: "py_str x = Inr t \<and> encodable t"
  show r: "cursor_round_trip x = Inr (PyStr t)"
    using e by (intro cursor_round_trip_str) simp_all
  show "cursor_round_trip x = Inr x \<longleftrightarrow> (\<exists>s. x = PyStr s)"
    using r e by (cases x) auto
next
  assume "encodable s"
  then show "cursor_round_trip (PyStr s) = Inr (PyStr s)"
    by (intro cursor_round_trip_str) simp_all
next
  assume "\<bar>i\<bar> < 10 ^ nat int_max_str_digits"
  then have "py_str (PyInt i) = Inr (decimal i)" by (simp add: int_str_small)
  then show "cursor_round_trip (PyInt i) = Inr (PyStr (decimal i))"
    using encodable_decimal by (rule cursor_round_trip_str)
next
  assume l: "10 ^ nat int_max_str_digits \<le> \<bar>i\<bar>"
  show e: "encode_cursor (PyInt i) = Inl ValueError"
    by (simp add: encode_cursor_def int_str_large[OF l])
  show "cursor_round_trip (PyInt i) = Inl ValueError"
    by (simp add: cursor_round_trip_def e)
qed

theorem cursor_round_trip_text_witness:
  "py_str (PyStr [8364, 128512, 97]) = Inr [8364, 128512, 97]
   \<and> encodable [8364, 128512, 97]
   \<and> cursor_round_trip (PyStr [8364, 128512, 97]) = Inr (PyStr [8364, 128512, 97])
   \<and> \<bar>- 42 :: int\<bar> < 10 ^ nat int_max_str_digits
   \<and> cursor_round_trip (PyInt (- 42)) = Inr (PyStr (ascii ''-42''))
   \<and> (10::int) ^ nat int_max_str_digits \<le> \<bar>10 ^ nat int_max_str_digits\<bar>
   \<and> encode_cursor (PyInt (10 ^ nat int_max_str_digits)) = Inl ValueError"
proof -
  have p: "py_str (PyStr [8364, 128512, 97]) = Inr [8364, 128512, 97]" by simp
  have h: "encodable [8364, 128512, 97]" by (simp add: encodable_def)
  have t: "decimal (- 42) = ascii ''-42''" by code_simp
  have small: "\<bar>- 42 :: int\<bar> < 10 ^ nat int_max_str_digits"
  proof -
    have "\<bar>- 42 :: int\<bar> < 10 ^ 2" by simp
    also have "\<dots> \<le> 10 ^ nat int_max_str_digits"
      by (rule power_increasing) (simp_all add: int_max_str_digits_def)
    finally show ?thesis .
  qed
  have large: "(10::int) ^ nat int_max_str_digits \<le> \<bar>10 ^ nat int_max_str_digits\<bar>"
    by (rule abs_ge_self)
  note c = cursor_round_trip_text[of "PyStr [8364, 128512, 97]" "[8364, 128512, 97]"
      "[8364, 128512, 97]"]
  have a: "cursor_round_trip (PyStr [8364, 128512, 97]) = Inr (PyStr [8364, 128512, 97])"
    using c[of 0, THEN conjunct2, THEN conjunct1] h by blast
  have b: "cursor_round_trip (PyInt (- 42)) = Inr (PyStr (ascii ''-42''))"
    using c[of "- 42", THEN conjunct2, THEN conjunct2, THEN conjunct1, THEN mp, OF small]
    by (simp only: t)
  have d: "encode_cursor (PyInt (10 ^ nat int_max_str_digits)) = Inl ValueError"
    using c[of "10 ^ nat int_max_str_digits", THEN conjunct2, THEN conjunct2, THEN conjunct2,
        THEN mp, OF large]
    by (rule conjunct1)
  from p h a small b large d show ?thesis by blast
qed

text \<open>
  C1 as stated fails for an integer key: the cursor of \<open>10\<close> decodes to the string
  \<open>"10"\<close>, which is not the integer \<open>10\<close>.
\<close>

theorem cursor_round_trip_int_counterexample:
  "cursor_round_trip (PyInt 10) = Inr (PyStr (ascii ''10''))
   \<and> cursor_round_trip (PyInt 10) \<noteq> Inr (PyInt 10)"
  by code_simp

text \<open>
  Over-fetching by one. A call of \<open>cursor_paginate\<close> that returns, with effective limit
  \<open>L\<close>, has executed exactly one statement, whose limit is \<open>L + 1\<close>; when the storage honours
  that limit, more rows than \<open>L\<close> were fetched (\<open>has_more\<close>) if and only if \<open>L + 1\<close> were; the
  returned items are the fetched rows cut by \<open>[:L]\<close> in that case and all of them
  otherwise, so they are a prefix of the fetched rows. Only for \<open>L >= 0\<close> are they at most
  \<open>L\<close>: the model of the request accepts a negative limit, and nothing clamps it.
\<close>

lemma cursor_paginate_overfetch:
  assumes "snd (cursor_paginate cfg db q col params d) = Inr (items, nc, pc)"
  shows "\<exists>stmt fetched.
           executed (fst (cursor_paginate cfg db q col params d)) = executed db @ [Rows stmt]
         \<and> limit_clause stmt = Some (min (limit params) (maxPageSize cfg) + 1)
         \<and> scalars_all db (Rows stmt) = Inr fetched
         \<and> (int (length fetched) \<le> min (limit params) (maxPageSize cfg) + 1 \<longrightarrow>
              (has_more_items fetched (min (limit params) (maxPageSize cfg))
               \<longleftrightarrow> int (length fetched) = min (limit params) (maxPageSize cfg) + 1))
         \<and> items = (if has_more_items fetched (min (limit params) (maxPageSize cfg))
                     then slice_to fetched (min (limit params) (maxPageSize cfg)) else fetched)
         \<and> prefix items fetched
         \<and> (0 \<le> min (limit params) (maxPageSize cfg) \<longrightarrow>
              items = (if has_more_items fetched (min (limit params) (maxPageSize cfg))
                       then take (nat (min (limit params) (maxPageSize cfg))) fetched
                       else fetched)
              \<and> int (length items) \<le> min (limit params) (maxPageSize cfg))"
proof -
  let ?L = "min (limit params) (maxPageSize cfg)"
  obtain db' where db': "cursor_paginate cfg db q col params d = (db', Inr (items, nc, pc))"
    using assms(1) by (cases "cursor_paginate cfg db q col params d") simp
  from db' obtain v fetched where
    v: "cursor_value_of (cursor params) = Inr v"
    and d: "db' = db\<lparr>executed := executed db @ [Rows (cursor_query q col v d ?L)]\<rparr>"
    and f: "scalars_all db (Rows (cursor_query q col v d ?L)) = Inr fetched"
    and i: "items = (if has_more_items fetched ?L then slice_to fetched ?L else fetched)"
    by (rule cursor_paginate_Inr)
  have i': "0 \<le> ?L \<longrightarrow>
            items = (if has_more_items fetched ?L then take (nat ?L) fetched else fetched)"
    using i by (simp add: slice_to_take)
  have len: "0 \<le> ?L \<longrightarrow> int (length items) \<le> ?L"
    using i' by (auto simp: has_more_items_def)
  have pre: "prefix items fetched"
    by (simp add: i slice_to_def take_is_prefix)
  have hm: "int (length fetched) \<le> ?L + 1 \<longrightarrow>
            (has_more_items fetched ?L \<longleftrightarrow> int (length fetched) = ?L + 1)"
    by (auto simp: has_more_items_def)
  have e: "executed (fst (cursor_paginate cfg db q col params d))
           = executed db @ [Rows (cursor_query q col v d ?L)]"
    by (simp add: db' d)
  show ?thesis
    apply (rule exI[of _ "cursor_query q col v d ?L"])
    apply (rule exI[of _ fetched])
    using e f i i' len pre hm cursor_query_limit[of q col v d ?L] by blast
qed

lemma cursor_paginate_overfetch_example:
  "snd (cursor_paginate cfg100 (table_session (users [1, 2, 3])) (select_from ()) id_column
          \<lparr>cursor = None, limit = 2\<rparr> ''forward'')
     = Inr (users [1, 2], Some (ascii ''Mg==''), None)
   \<and> min (limit \<lparr>cursor = None, limit = 2\<rparr>) (maxPageSize cfg100) = 2
   \<and> executed (fst (cursor_paginate cfg100 (table_session (users [1, 2, 3])) (select_from ())
                      id_column \<lparr>cursor = None, limit = 2\<rparr> ''forward''))
       = [Rows (limit_sel (select_from ()) 3)]
   \<and> scalars_all (table_session (users [1, 2, 3])) (Rows (limit_sel (select_from ()) 3))
       = Inr (users [1, 2, 3])
   \<and> int (length (users [1, 2, 3])) \<le> 2 + 1
   \<and> has_more_items (users [1, 2, 3]) 2
   \<and> users [1, 2] = take 2 (users [1, 2, 3])
   \<and> int (length (users [1, 2])) \<le> 2
   \<and> prefix (users [1, 2]) (users [1, 2, 3])"
proof -
  let ?db = "table_session (users [1, 2, 3]) :: unit session"
  let ?p = "\<lparr>cursor = None, limit = 2\<rparr>"
  have h1: "snd (cursor_paginate cfg100 ?db (select_from ()) id_column ?p ''forward'')
            = Inr (users [1, 2], Some (ascii ''Mg==''), None)"
    by code_simp
  have L: "min (limit ?p) (maxPageSize cfg100) = 2" by (simp add: cfg100_def)
  have ex: "executed (fst (cursor_paginate cfg100 ?db (select_from ()) id_column ?p ''forward''))
            = [Rows (limit_sel (select_from ()) 3)]"
    by code_simp
  have sa: "scalars_all ?db (Rows (limit_sel (select_from ()) 3)) = Inr (users [1, 2, 3])"
    by code_simp
  have e0: "executed ?db = []" by (simp add: table_session_def)
  from cursor_paginate_overfetch[OF h1] obtain stmt fetched where
    e: "executed (fst (cursor_paginate cfg100 ?db (select_from ()) id_column ?p ''forward''))
          = executed ?db @ [Rows stmt]"
    and f: "scalars_all ?db (Rows stmt) = Inr fetched"
    and hm: "int (length fetched) \<le> 2 + 1 \<longrightarrow>
             (has_more_items fetched 2 \<longleftrightarrow> int (length fetched) = 2 + 1)"
    and pre: "prefix (users [1, 2]) fetched"
    and bound: "0 \<le> (2::int) \<longrightarrow>
              users [1, 2] = (if has_more_items fetched 2 then take (nat 2) fetched else fetched)
              \<and> int (length (users [1, 2])) \<le> 2"
    unfolding L by blast
  from e ex e0 have stmt: "stmt = limit_sel (select_from ()) 3" by simp
  from f sa have fetched: "fetched = users [1, 2, 3]" by (simp add: stmt)
  have len: "int (length (users [1, 2, 3])) = 2 + 1" by (simp add: users_def)
  from hm len have more: "has_more_items (users [1, 2, 3]) 2" by (simp add: fetched)
  from bound more have tk: "users [1, 2] = take 2 (users [1, 2, 3])"
    and sz: "int (length (users [1, 2])) \<le> 2" by (simp_all add: fetched)
  from pre have pre': "prefix (users [1, 2]) (users [1, 2, 3])" by (simp add: fetched)
  from h1 L ex sa len more tk sz pre' show ?thesis by simp
qed

text \<open>
  C2 (the code misses the lower bound). \<open>CursorPaginationParams\<close> accepts \<open>limit = -1\<close> and
  the effective limit is then \<open>min(-1, maxPageSize) = -1\<close>: the statement executed asks for
  \<open>L + 1 = 0\<close> rows, none is fetched, \<open>has_more\<close> (\<open>0 > -1\<close>) is true, and the page returned,
  the empty list cut by \<open>[:-1]\<close>, has \<open>0\<close> items, which is not at most \<open>L\<close>.
\<close>

theorem negative_limit_page:
  "min (limit \<lparr>cursor = None, limit = - 1\<rparr>) (maxPageSize cfg100) = - 1
   \<and> snd (cursor_paginate cfg100 (table_session (users [1, 2, 3])) (select_from ()) id_column
            \<lparr>cursor = None, limit = - 1\<rparr> ''forward'') = Inr ([], None, None)
   \<and> executed (fst (cursor_paginate cfg100 (table_session (users [1, 2, 3])) (select_from ())
                      id_column \<lparr>cursor = None, limit = - 1\<rparr> ''forward''))
       = [Rows (limit_sel (select_from ()) 0)]
   \<and> scalars_all (table_session (users [1, 2, 3])) (Rows (limit_sel (select_from ()) 0))
       = Inr []
   \<and> has_more_items ([] :: item list) (- 1)
   \<and> slice_to ([] :: item list) (- 1) = []
   \<and> \<not> int (length ([] :: item list))
          \<le> min (limit \<lparr>cursor = None, limit = - 1\<rparr>) (maxPageSize cfg100)"
  by code_simp

text \<open>
  C3. For a call of \<open>cursor_paginate\<close> that returns: \<open>next_cursor\<close> is set exactly when more
  rows were fetched than the effective limit and the page is not empty, and is then the
  encoding of the key of the last returned item; \<open>previous_cursor\<close> is set exactly when the
  request carried a cursor and the page is not empty, and is then the encoding of the key
  of the first returned item; an empty page has neither cursor. A request carries a
  cursor when its \<open>cursor\<close> decodes to a non-empty value: one that is empty or does not
  decode is treated as absent, which is the contract of \<open>decode_cursor\<close>.
\<close>

theorem cursor_paginate_cursors:
  assumes "snd (cursor_paginate cfg db q col params d) = Inr (items, nc, pc)"
  shows "\<exists>stmt fetched.
           executed (fst (cursor_paginate cfg db q col params d)) = executed db @ [Rows stmt]
         \<and> scalars_all db (Rows stmt) = Inr fetched
         \<and> (nc \<noteq> None \<longleftrightarrow>
              has_more_items fetched (min (limit params) (maxPageSize cfg)) \<and> items \<noteq> [])
         \<and> (\<forall>c. nc = Some c \<longrightarrow>
              (\<exists>k. getattr (last items) (name col) = Inr k \<and> encode_cursor k = Inr c))
         \<and> (pc \<noteq> None \<longleftrightarrow>
              (\<exists>s. cursor params = Some s \<and> decode_cursor s \<noteq> Inr []) \<and> items \<noteq> [])
         \<and> (\<forall>c. pc = Some c \<longrightarrow>
              (\<exists>k. getattr (hd items) (name col) = Inr k \<and> encode_cursor k = Inr c))
         \<and> (items = [] \<longrightarrow> nc = None \<and> pc = None)"
proof -
  let ?L = "min (limit params) (maxPageSize cfg)"
  obtain db' where db': "cursor_paginate cfg db q col params d = (db', Inr (items, nc, pc))"
    using assms by (cases "cursor_paginate cfg db q col params d") simp
  from db' obtain v fetched where
    v: "cursor_value_of (cursor params) = Inr v"
    and d: "db' = db\<lparr>executed := executed db @ [Rows (cursor_query q col v d ?L)]\<rparr>"
    and f: "scalars_all db (Rows (cursor_query q col v d ?L)) = Inr fetched"
    and i: "items = (if has_more_items fetched ?L then slice_to fetched ?L else fetched)"
    and g: "generate_cursors items (has_more_items fetched ?L) v col = Inr (nc, pc)"
    by (rule cursor_paginate_Inr)
  note n = generate_cursors_next[OF g]
  have t: "truthy v \<longleftrightarrow> (\<exists>s. cursor params = Some s \<and> decode_cursor s \<noteq> Inr [])"
    by (rule cursor_value_of_truthy[OF v])
  have e: "executed (fst (cursor_paginate cfg db q col params d))
           = executed db @ [Rows (cursor_query q col v d ?L)]"
    by (simp add: db' d)
  have both: "items = [] \<longrightarrow> nc = None \<and> pc = None"
    using n(1,3) by blast
  show ?thesis
    apply (rule exI[of _ "cursor_query q col v d ?L"])
    apply (rule exI[of _ fetched])
    using e f n(1) n(2) n(3) n(4) both unfolding t by blast
qed

theorem cursor_paginate_cursors_witness:
  "snd (cursor_paginate cfg100 (table_session (users [1, 2, 3, 4, 5])) (select_from ()) id_column
          \<lparr>cursor = Some (ascii ''MQ==''), limit = 2\<rparr> ''forward'')
     = Inr (users [2, 3], Some (ascii ''Mw==''), Some (ascii ''Mg==''))
   \<and> (\<exists>k. getattr (last (users [2, 3])) (name id_column) = Inr k
            \<and> encode_cursor k = Inr (ascii ''Mw==''))
   \<and> (\<exists>k. getattr (hd (users [2, 3])) (name id_column) = Inr k
            \<and> encode_cursor k = Inr (ascii ''Mg==''))
   \<and> decode_cursor (ascii ''MQ=='') \<noteq> Inr []"
proof -
  have h: "snd (cursor_paginate cfg100 (table_session (users [1, 2, 3, 4, 5])) (select_from ())
                  id_column \<lparr>cursor = Some (ascii ''MQ==''), limit = 2\<rparr> ''forward'')
           = Inr (users [2, 3], Some (ascii ''Mw==''), Some (ascii ''Mg==''))"
    by code_simp
  from cursor_paginate_cursors[OF h] h show ?thesis by auto
qed

lemma a2b_skip:
  "b64_index x = None \<Longrightarrow> x \<noteq> 61 \<Longrightarrow>
   a2b_base64 q l p out (pre @ x # post) = a2b_base64 q l p out (pre @ post)"
proof (induction pre arbitrary: q l p out)
  case Nil
  then show ?case by simp
next
  case (Cons c pre)
  show ?case
    by (simp only: append_Cons a2b_base64.simps Cons.IH[OF Cons.prems])
qed

lemma decode_cursor_skip:
  assumes "b64_index x = None" "x \<noteq> 61" "\<forall>c\<in>set (pre @ x # post). c < 128"
  shows "decode_cursor (pre @ x # post) = decode_cursor (pre @ post)"
proof -
  have a: "str_encode (pre @ x # post) = Inr (pre @ x # post)"
    by (rule str_encode_ascii[OF assms(3)])
  have "\<forall>c\<in>set (pre @ post). c < 128" using assms(3) by auto
  then have b: "str_encode (pre @ post) = Inr (pre @ post)" by (rule str_encode_ascii)
  show ?thesis
    by (simp add: decode_cursor_def decode_cursor_try_def a b b64decode_def
        a2b_skip[OF assms(1,2)])
qed

text \<open>
  C6 (amended). \<open>decode_cursor\<close> never raises. It returns the empty string when the
  decoding raises (the lenient base64 decoder rejects the string, or the payload is not
  UTF-8), in particular for a string of base64 symbols whose length is not a multiple of
  four, and for the empty string. An ASCII character that is neither a base64 symbol nor
  the pad is skipped: the cursor decodes as it does without it. A request whose cursor
  decodes to the empty string is paginated exactly as a request without cursor: the
  statement executed carries no inequality filter and no \<open>previous_cursor\<close> is returned.
\<close>

theorem decode_cursor_fail_open:
  "(\<exists>s. decode_cursor c = Inr s)
   \<and> (\<forall>e. decode_cursor_try c = Inl e \<longrightarrow> decode_cursor c = Inr [])
   \<and> (list_all (\<lambda>x. b64_index x \<noteq> None) c \<and> length c mod 4 \<noteq> 0 \<longrightarrow> decode_cursor c = Inr [])
   \<and> decode_cursor [] = Inr []
   \<and> (b64_index x = None \<and> x \<noteq> 61 \<and> (\<forall>y\<in>set (pre @ x # post). y < 128) \<longrightarrow>
        decode_cursor (pre @ x # post) = decode_cursor (pre @ post))
   \<and> (decode_cursor c = Inr [] \<longrightarrow>
        cursor_paginate cfg db q col \<lparr>cursor = Some c, limit = l\<rparr> d
          = cursor_paginate cfg db q col \<lparr>cursor = None, limit = l\<rparr> d
        \<and> executed (fst (cursor_paginate cfg db q col \<lparr>cursor = Some c, limit = l\<rparr> d))
          = executed db @ [Rows (limit_sel q (min l (maxPageSize cfg) + 1))]
        \<and> (\<forall>items nc pc.
              snd (cursor_paginate cfg db q col \<lparr>cursor = Some c, limit = l\<rparr> d)
                = Inr (items, nc, pc) \<longrightarrow> pc = None))"
proof -
  have skip: "b64_index x = None \<and> x \<noteq> 61 \<and> (\<forall>y\<in>set (pre @ x # post). y < 128) \<longrightarrow>
        decode_cursor (pre @ x # post) = decode_cursor (pre @ post)"
    using decode_cursor_skip[of x pre post] by simp
  have rest: "(\<exists>s. decode_cursor c = Inr s)
   \<and> (\<forall>e. decode_cursor_try c = Inl e \<longrightarrow> decode_cursor c = Inr [])
   \<and> (list_all (\<lambda>x. b64_index x \<noteq> None) c \<and> length c mod 4 \<noteq> 0 \<longrightarrow> decode_cursor c = Inr [])
   \<and> decode_cursor [] = Inr []"
    using decode_cursor_total[of c] decode_cursor_caught[of c] decode_cursor_bad_length[of c]
      decode_cursor_empty
    by (intro conjI impI allI) blast+
  have pag: "decode_cursor c = Inr [] \<longrightarrow>
        cursor_paginate cfg db q col \<lparr>cursor = Some c, limit = l\<rparr> d
          = cursor_paginate cfg db q col \<lparr>cursor = None, limit = l\<rparr> d
        \<and> executed (fst (cursor_paginate cfg db q col \<lparr>cursor = Some c, limit = l\<rparr> d))
          = executed db @ [Rows (limit_sel q (min l (maxPageSize cfg) + 1))]
        \<and> (\<forall>items nc pc.
              snd (cursor_paginate cfg db q col \<lparr>cursor = Some c, limit = l\<rparr> d)
                = Inr (items, nc, pc) \<longrightarrow> pc = None)"
    using cursor_paginate_undecodable[of c cfg db q col l d]
    by (intro conjI impI allI) blast+
  from rest skip pag show ?thesis by (intro conjI) blast+
qed

theorem decode_cursor_fail_open_witness:
  "decode_cursor_try (ascii ''garbage'') = Inl Binascii_Error
   \<and> decode_cursor_try (ascii ''/w=='') = Inl UnicodeDecodeError
   \<and> list_all (\<lambda>x. b64_index x \<noteq> None) (ascii ''garbage'')
   \<and> length (ascii ''garbage'') mod 4 \<noteq> 0
   \<and> decode_cursor (ascii ''garbage'') = Inr []
   \<and> decode_cursor (ascii ''/w=='') = Inr []
   \<and> b64_index 32 = None
   \<and> decode_cursor (ascii ''MT A='') = decode_cursor (ascii ''MTA='')
   \<and> cursor_paginate cfg100 (table_session (users [1, 2, 3])) (select_from ()) id_column
         \<lparr>cursor = Some (ascii ''garbage''), limit = 2\<rparr> ''forward''
       = cursor_paginate cfg100 (table_session (users [1, 2, 3])) (select_from ()) id_column
           \<lparr>cursor = None, limit = 2\<rparr> ''forward''
   \<and> snd (cursor_paginate cfg100 (table_session (users [1, 2, 3])) (select_from ()) id_column
            \<lparr>cursor = Some (ascii ''garbage''), limit = 2\<rparr> ''forward'')
       = Inr (users [1, 2], Some (ascii ''Mg==''), None)"
proof -
  have a: "decode_cursor_try (ascii ''garbage'') = Inl Binascii_Error" by code_simp
  have b: "decode_cursor_try (ascii ''/w=='') = Inl UnicodeDecodeError" by code_simp
  have c: "list_all (\<lambda>x. b64_index x \<noteq> None) (ascii ''garbage'')
           \<and> length (ascii ''garbage'') mod 4 \<noteq> 0" by code_simp
  note t = decode_cursor_fail_open[of _ _ _ _ cfg100
      "table_session (users [1, 2, 3]) :: unit session" "select_from ()" id_column 2 "''forward''"]
  from t[of "ascii ''garbage''"] a have d: "decode_cursor (ascii ''garbage'') = Inr []" by blast
  from t[of "ascii ''/w==''"] b have d': "decode_cursor (ascii ''/w=='') = Inr []" by blast
  have i: "b64_index 32 = None" by (simp add: b64_index_def)
  have s: "ascii ''MT A='' = ascii ''MT'' @ 32 # ascii ''A=''" "ascii ''MTA='' = ascii ''MT'' @ ascii ''A=''"
    by (simp_all add: ascii_def)
  have k: "\<forall>y\<in>set (ascii ''MT'' @ 32 # ascii ''A=''). y < 128" by (simp add: ascii_def)
  have "decode_cursor (ascii ''MT'' @ 32 # ascii ''A='')
        = decode_cursor (ascii ''MT'' @ ascii ''A='')"
    by (rule mp[OF t[of "[]" 32 "ascii ''MT''" "ascii ''A=''", THEN conjunct2, THEN conjunct2,
          THEN conjunct2, THEN conjunct2, THEN conjunct1]]) (simp add: i k)
  then have sk: "decode_cursor (ascii ''MT A='') = decode_cursor (ascii ''MTA='')"
    by (simp only: s)
  from t[of "ascii ''garbage''"] d have e:
    "cursor_paginate cfg100 (table_session (users [1, 2, 3]) :: unit session) (select_from ())
       id_column \<lparr>cursor = Some (ascii ''garbage''), limit = 2\<rparr> ''forward''
     = cursor_paginate cfg100 (table_session (users [1, 2, 3])) (select_from ()) id_column
         \<lparr>cursor = None, limit = 2\<rparr> ''forward''" by blast
  have f: "snd (cursor_paginate cfg100 (table_session (users [1, 2, 3]) :: unit session)
                 (select_from ()) id_column \<lparr>cursor = None, limit = 2\<rparr> ''forward'')
           = Inr (users [1, 2], Some (ascii ''Mg==''), None)" by code_simp
  show ?thesis using a b c d d' i sk e f by simp
qed

text \<open>
  C6 as stated fails: \<open>"YWJj!"\<close> is not a base64 encoding, yet it decodes to \<open>"abc"\<close>,
  because characters outside the alphabet are skipped.
\<close>

theorem decode_cursor_lenient_counterexample:
  "\<not> valid_base64 (ascii ''YWJj!'')
   \<and> decode_cursor (ascii ''YWJj!'') = Inr (ascii ''abc'')
   \<and> ascii ''abc'' \<noteq> []"
  by code_simp

lemma whereclause_limit_sel: "whereclause (limit_sel q n) = whereclause q"
  by (simp add: limit_sel_def)

text \<open>
  C10. The empty key encodes to the empty string, the value \<open>decode_cursor\<close> returns when
  decoding raises. A request whose cursor is that encoding, or decodes to the empty
  string, gets the result of the request without cursor; the one statement executed has
  the where-clauses of the caller's query and no other, and no \<open>previous_cursor\<close> is
  returned.
\<close>

theorem empty_cursor_is_no_cursor:
  "encode_cursor (PyStr []) = Inr []
   \<and> (\<forall>e. decode_cursor_try c = Inl e \<longrightarrow> decode_cursor c = Inr [])
   \<and> cursor_paginate cfg db q col \<lparr>cursor = Some [], limit = l\<rparr> d
       = cursor_paginate cfg db q col \<lparr>cursor = None, limit = l\<rparr> d
   \<and> (decode_cursor c = Inr [] \<longrightarrow>
        cursor_paginate cfg db q col \<lparr>cursor = Some c, limit = l\<rparr> d
          = cursor_paginate cfg db q col \<lparr>cursor = None, limit = l\<rparr> d
        \<and> (\<exists>stmt. executed (fst (cursor_paginate cfg db q col \<lparr>cursor = Some c, limit = l\<rparr> d))
                      = executed db @ [Rows stmt]
                  \<and> whereclause stmt = whereclause q)
        \<and> (\<forall>items nc pc.
              snd (cursor_paginate cfg db q col \<lparr>cursor = Some c, limit = l\<rparr> d)
                = Inr (items, nc, pc) \<longrightarrow> pc = None))"
proof -
  have "cursor_paginate cfg db q col \<lparr>cursor = Some [], limit = l\<rparr> d
       = cursor_paginate cfg db q col \<lparr>cursor = None, limit = l\<rparr> d"
    by (rule cursor_paginate_undecodable(1)[OF decode_cursor_empty])
  moreover have "decode_cursor c = Inr [] \<Longrightarrow>
      \<exists>stmt. executed (fst (cursor_paginate cfg db q col \<lparr>cursor = Some c, limit = l\<rparr> d))
                      = executed db @ [Rows stmt]
                  \<and> whereclause stmt = whereclause q"
    using cursor_paginate_undecodable(2)[of c cfg db q col l d] whereclause_limit_sel by blast
  ultimately show ?thesis
    using encode_cursor_empty decode_cursor_caught[of c]
      cursor_paginate_undecodable(1,3)[of c cfg db q col l d]
    by (intro conjI impI allI) blast+
qed

theorem empty_cursor_is_no_cursor_witness:
  "decode_cursor_try (ascii ''a'') = Inl Binascii_Error
   \<and> decode_cursor (ascii ''a'') = Inr []
   \<and> decode_cursor (ascii ''===='') = Inr []
   \<and> cursor_paginate cfg100 (table_session (users [1, 2, 3])) (select_from ()) id_column
         \<lparr>cursor = Some (ascii ''====''), limit = 2\<rparr> ''forward''
       = cursor_paginate cfg100 (table_session (users [1, 2, 3])) (select_from ()) id_column
           \<lparr>cursor = None, limit = 2\<rparr> ''forward''
   \<and> snd (cursor_paginate cfg100 (table_session (users [1, 2, 3])) (select_from ()) id_column
            \<lparr>cursor = Some (ascii ''====''), limit = 2\<rparr> ''forward'')
       = Inr (users [1, 2], Some (ascii ''Mg==''), None)"
proof -
  have a: "decode_cursor_try (ascii ''a'') = Inl Binascii_Error" by code_simp
  have b: "decode_cursor (ascii ''===='') = Inr []" by code_simp
  note t = empty_cursor_is_no_cursor[of _ cfg100
      "table_session (users [1, 2, 3]) :: unit session" "select_from ()" id_column 2 "''forward''"]
  from t[of "ascii ''a''"] a have c: "decode_cursor (ascii ''a'') = Inr []" by blast
  from t[of "ascii ''====''"] b have e:
    "cursor_paginate cfg100 (table_session (users [1, 2, 3]) :: unit session) (select_from ())
       id_column \<lparr>cursor = Some (ascii ''====''), limit = 2\<rparr> ''forward''
     = cursor_paginate cfg100 (table_session (users [1, 2, 3])) (select_from ()) id_column
         \<lparr>cursor = None, limit = 2\<rparr> ''forward''" by blast
  have f: "snd (cursor_paginate cfg100 (table_session (users [1, 2, 3]) :: unit session)
                 (select_from ()) id_column \<lparr>cursor = None, limit = 2\<rparr> ''forward'')
           = Inr (users [1, 2], Some (ascii ''Mg==''), None)" by code_simp
  show ?thesis using a b c e f by simp
qed

text \<open>
  C5 (the code misses the lower bound). The effective limit is \<open>min(limit, maxPageSize)\<close>:
  a request with \<open>limit = 0\<close> has effective limit \<open>0\<close>, asks the storage for one row and
  returns an empty page without cursors, although rows exist.
\<close>

theorem zero_limit_not_clamped:
  "min (limit \<lparr>cursor = None, limit = 0\<rparr>) (maxPageSize cfg100) = 0
   \<and> snd (cursor_paginate cfg100 (table_session (users [1, 2, 3])) (select_from ()) id_column
            \<lparr>cursor = None, limit = 0\<rparr> ''forward'') = Inr ([], None, None)
   \<and> executed (fst (cursor_paginate cfg100 (table_session (users [1, 2, 3])) (select_from ())
                      id_column \<lparr>cursor = None, limit = 0\<rparr> ''forward''))
       = [Rows (limit_sel (select_from ()) 1)]
   \<and> min (limit \<lparr>cursor = None, limit = - 5\<rparr>) (maxPageSize cfg100) = - 5"
  by code_simp

text \<open>
  C7. Keys \<open>1..23\<close>, limit \<open>10\<close>, forward: the first call, without cursor, returns keys
  \<open>1..10\<close>, the cursor of \<open>10\<close> as next and no previous cursor; the second call, with that
  cursor, returns keys \<open>11..20\<close>, the cursor of \<open>20\<close> as next and the cursor of \<open>11\<close> as
  previous; the third call returns keys \<open>21..23\<close> and has no next page.
\<close>

theorem forward_scenario:
  "(let db0 = table_session (users [1..23]) :: unit session;
        (db1, r1) = list_users cfg100 db0 (select_from ()) id_column None 10;
        (db2, r2) = list_users cfg100 db1 (select_from ()) id_column (Some (ascii ''MTA='')) 10;
        (db3, r3) = list_users cfg100 db2 (select_from ()) id_column (Some (ascii ''MjA='')) 10
    in r1 = Inr \<lparr>data = users [1..10], next_cursor = Some (ascii ''MTA=''),
                  previous_cursor = None, has_next = True, has_previous = False\<rparr>
     \<and> r2 = Inr \<lparr>data = users [11..20], next_cursor = Some (ascii ''MjA=''),
                  previous_cursor = Some (ascii ''MTE=''), has_next = True, has_previous = True\<rparr>
     \<and> r3 = Inr \<lparr>data = users [21..23], next_cursor = None,
                  previous_cursor = Some (ascii ''MjE=''), has_next = False, has_previous = True\<rparr>)
   \<and> encode_cursor (PyInt 10) = Inr (ascii ''MTA='')
   \<and> encode_cursor (PyInt 20) = Inr (ascii ''MjA='')
   \<and> encode_cursor (PyInt 11) = Inr (ascii ''MTE='')"
  by code_simp

section \<open>Claims about the offset calculator\<close>

lemma bit_length_pos: "0 < n \<Longrightarrow> 0 < bit_length n"
  by (simp add: bit_length.simps[of n])

lemma bit_length_bounds: "0 < n \<Longrightarrow> 2 ^ (bit_length n - 1) \<le> n \<and> n < 2 ^ bit_length n"
proof (induction n rule: bit_length.induct)
  case (1 n)
  show ?case
  proof (cases "n div 2 = 0")
    case True
    with "1.prems" have "n = Suc 0" by simp
    then show ?thesis by (simp add: bit_length.simps[of "Suc 0"] bit_length.simps[of 0])
  next
    case False
    then have h: "0 < n div 2" by simp
    from "1.IH"[OF _ h] "1.prems"
    have ih: "2 ^ (bit_length (n div 2) - 1) \<le> n div 2" "n div 2 < 2 ^ bit_length (n div 2)"
      by simp_all
    have bl: "bit_length n = Suc (bit_length (n div 2))"
      using "1.prems" by (simp add: bit_length.simps[of n])
    obtain j where j: "bit_length (n div 2) = Suc j"
      using bit_length_pos[OF h] by (cases "bit_length (n div 2)") simp_all
    have lo: "2 ^ (bit_length n - 1) \<le> n"
    proof -
      have "(2::nat) ^ (bit_length n - 1) = 2 * 2 ^ j" by (simp add: bl j)
      also have "\<dots> \<le> 2 * (n div 2)" using ih(1) by (simp add: j)
      also have "\<dots> \<le> n" by simp
      finally show ?thesis .
    qed
    have hi: "n < 2 ^ bit_length n"
    proof -
      have "n < 2 * (n div 2 + 1)" by simp
      also have "\<dots> \<le> 2 * 2 ^ bit_length (n div 2)" using ih(2) by simp
      also have "\<dots> = 2 ^ bit_length n" by (simp add: bl)
      finally show ?thesis .
    qed
    from lo hi show ?thesis ..
  qed
qed

lemma bit_length_le: "n < 2 ^ k \<Longrightarrow> bit_length n \<le> k"
proof (cases "n = 0")
  case True
  then show ?thesis by (simp add: bit_length.simps[of 0])
next
  case False
  assume "n < 2 ^ k"
  with bit_length_bounds[of n] False have "(2::nat) ^ (bit_length n - 1) < 2 ^ k"
    using le_less_trans by blast
  then have "bit_length n - 1 < k" by (simp only: power_strict_increasing_iff)
  then show ?thesis by simp
qed

lemma round_half_even_bounds:
  fixes a b k s :: nat
  assumes b: "0 < b" and k: "0 < k" and lo: "(k - 1) * b < a" and hi: "a \<le> k * b"
    and norm: "2 ^ 52 * b \<le> a * 2 ^ s" and a53: "a < 2 ^ 53"
  shows "(k - 1) * 2 ^ s < round_half_even (a * 2 ^ s) b"
    and "round_half_even (a * 2 ^ s) b \<le> k * 2 ^ s"
proof -
  define N where "N = a * 2 ^ s"
  define q where "q = N div b"
  define r where "r = N mod b"
  have N: "N = q * b + r" and rb: "r < b"
    using b by (simp_all add: q_def r_def)
  have rhe: "round_half_even N b = (if b < 2 * r \<or> (2 * r = b \<and> odd q) then q + 1 else q)"
    by (simp add: round_half_even_def q_def r_def Let_def)
  have bs: "b < 2 * 2 ^ s"
  proof -
    have "2 ^ 52 * b \<le> a * 2 ^ s" by (rule norm)
    also have "\<dots> < 2 ^ 53 * 2 ^ s" using a53 by simp
    also have "\<dots> = 2 ^ 52 * (2 * 2 ^ s)" by simp
    finally show ?thesis by simp
  qed
  have up: "N \<le> (k * 2 ^ s) * b"
  proof -
    have "N \<le> (k * b) * 2 ^ s" unfolding N_def using hi by simp
    then show ?thesis by (simp add: mult.assoc mult.left_commute mult.commute)
  qed
  have q_le: "q \<le> k * 2 ^ s"
  proof -
    have "q \<le> ((k * 2 ^ s) * b) div b" unfolding q_def by (rule div_le_mono[OF up])
    then show ?thesis using b by simp
  qed
  show "round_half_even (a * 2 ^ s) b \<le> k * 2 ^ s"
  proof (cases "q = k * 2 ^ s")
    case True
    with N up have "r = 0" by simp
    with True b show ?thesis by (simp add: rhe N_def[symmetric])
  next
    case False
    with q_le have "q + 1 \<le> k * 2 ^ s" by simp
    then show ?thesis by (simp add: rhe N_def[symmetric])
  qed
  have down: "((k - 1) * 2 ^ s) * b + 2 ^ s \<le> N"
  proof -
    have "(k - 1) * b + 1 \<le> a" using lo by simp
    then have "((k - 1) * b + 1) * 2 ^ s \<le> a * 2 ^ s" by (rule mult_le_mono1)
    then show ?thesis
      unfolding N_def by (simp add: algebra_simps)
  qed
  have q_ge: "(k - 1) * 2 ^ s \<le> q"
  proof -
    have "((k - 1) * 2 ^ s) * b \<le> N" using down by simp
    then have "(((k - 1) * 2 ^ s) * b) div b \<le> q" unfolding q_def by (rule div_le_mono)
    then show ?thesis using b by simp
  qed
  show "(k - 1) * 2 ^ s < round_half_even (a * 2 ^ s) b"
  proof (cases "q = (k - 1) * 2 ^ s")
    case True
    with N down have "2 ^ s \<le> r" by simp
    with bs have "b < 2 * r" by simp
    with True show ?thesis by (simp add: rhe N_def[symmetric])
  next
    case False
    with q_ge have "(k - 1) * 2 ^ s < q" by simp
    then show ?thesis by (simp add: rhe N_def[symmetric])
  qed
qed


text \<open>The exponent chosen for operands below \<open>2 ^ 53\<close>.\<close>

lemma floor_log2_quot_norm:
  fixes a b :: nat
  assumes a: "0 < a" "a < 2 ^ 53" and b: "0 < b" "b < 2 ^ 53"
  shows "\<exists>s. 52 - floor_log2_quot a b = int s \<and> s \<le> 106 \<and> 2 ^ 52 * b \<le> a * 2 ^ s"
proof -
  define A where "A = bit_length a"
  define B where "B = bit_length b"
  have A: "0 < A" "A \<le> 53" "2 ^ (A - 1) \<le> a"
    using bit_length_pos[OF a(1)] bit_length_le[OF a(2)] bit_length_bounds[OF a(1)]
    by (simp_all add: A_def)
  have B: "0 < B" "B \<le> 53" "b < 2 ^ B"
    using bit_length_pos[OF b(1)] bit_length_le[OF b(2)] bit_length_bounds[OF b(1)]
    by (simp_all add: B_def)
  define d where "d = int A - int B"
  define c where "c = (if 0 \<le> d then b * 2 ^ nat d \<le> a else b \<le> a * 2 ^ nat (- d))"
  have e: "floor_log2_quot a b = (if c then d else d - 1)"
    by (simp add: floor_log2_quot_def Let_def A_def B_def d_def c_def)
  show ?thesis
  proof (cases c)
    case True
    define s where "s = 52 + B - A"
    have s: "52 - floor_log2_quot a b = int s" "s \<le> 106"
      using A B True by (simp_all add: e d_def s_def)
    have "2 ^ 52 * b \<le> a * 2 ^ s"
    proof (cases "0 \<le> d")
      case True
      then have AB: "B \<le> A" by (simp add: d_def)
      with \<open>c\<close> True have "b * 2 ^ (A - B) \<le> a" by (simp add: c_def d_def nat_diff_distrib)
      then have le: "(b * 2 ^ (A - B)) * 2 ^ s \<le> a * 2 ^ s" by (rule mult_le_mono1)
      have "(A - B) + s = 52" unfolding s_def using AB A(1,2) B(1,2) by linarith
      then have p: "(2::nat) ^ (A - B) * 2 ^ s = 2 ^ 52" by (simp only: power_add[symmetric])
      have "2 ^ 52 * b = b * ((2::nat) ^ (A - B) * 2 ^ s)" unfolding p by (rule mult.commute)
      also have "\<dots> = (b * 2 ^ (A - B)) * 2 ^ s" by (rule mult.assoc[symmetric])
      also note le
      finally show ?thesis .
    next
      case False
      then have AB: "A < B" by (simp add: d_def)
      with \<open>c\<close> False have "b \<le> a * 2 ^ (B - A)"
        by (simp add: c_def d_def nat_diff_distrib)
      then have le: "2 ^ 52 * b \<le> 2 ^ 52 * (a * 2 ^ (B - A))" by (rule mult_le_mono2)
      have "s = 52 + (B - A)" unfolding s_def using AB A(1,2) B(1,2) by linarith
      then have p: "(2::nat) ^ s = 2 ^ 52 * 2 ^ (B - A)" by (simp only: power_add)
      note le
      also have "2 ^ 52 * (a * 2 ^ (B - A)) = a * (2 ^ 52 * 2 ^ (B - A))"
        by (rule mult.left_commute)
      also have "\<dots> = a * 2 ^ s" by (simp only: p)
      finally show ?thesis .
    qed
    with s show ?thesis by blast
  next
    case False
    define s where "s = 53 + B - A"
    have s: "52 - floor_log2_quot a b = int s" "s \<le> 106"
      using A B False by (simp_all add: e d_def s_def)
    have "b \<le> 2 ^ B" using B(3) by simp
    then have "2 ^ 52 * b \<le> 2 ^ 52 * 2 ^ B" by (rule mult_le_mono2)
    also have "\<dots> = 2 ^ (A - 1) * 2 ^ s"
    proof -
      have "52 + B = (A - 1) + s" unfolding s_def using A(1,2) B(1,2) by linarith
      then show ?thesis by (simp only: power_add[symmetric])
    qed
    also have "\<dots> \<le> a * 2 ^ s" using A(3) by (rule mult_le_mono1)
    finally have "2 ^ 52 * b \<le> a * 2 ^ s" .
    with s show ?thesis by blast
  qed
qed

lemma round_half_even_le: "round_half_even n d \<le> n + 1"
proof -
  have "n div d \<le> Suc n" by (rule le_SucI[OF div_le_dividend])
  then show ?thesis by (auto simp: round_half_even_def Let_def)
qed

lemma nat_truediv_small:
  fixes a b :: nat
  assumes a: "0 < a" "a < 2 ^ 53" and b: "0 < b" "b < 2 ^ 53"
  shows "\<exists>s. nat_truediv a b = Inr (round_half_even (a * 2 ^ s) b, - int s)
             \<and> 2 ^ 52 * b \<le> a * 2 ^ s"
proof -
  obtain s where s: "52 - floor_log2_quot a b = int s" "s \<le> 106"
    and norm: "2 ^ 52 * b \<le> a * 2 ^ s"
    using floor_log2_quot_norm[OF a b] by blast
  have e: "floor_log2_quot a b = 52 - int s" using s(1) by simp
  have p: "max (52 - int s) (- 1022) = 52 - int s" using s(2) by simp
  show ?thesis
  proof (cases "s = 0")
    case True
    have "round_half_even a b \<le> a + 1" by (rule round_half_even_le)
    also have "\<dots> \<le> 2 ^ 53" using a(2) by simp
    also have "\<dots> < (2::nat) ^ 1024" by (simp only: power_strict_increasing_iff)
    finally have "\<not> 2 ^ 1024 \<le> round_half_even a b" by simp
    then have "nat_truediv a b = Inr (round_half_even (a * 2 ^ s) b, - int s)"
      by (simp add: nat_truediv_def e True Let_def)
    with norm show ?thesis by blast
  next
    case False
    then have "nat_truediv a b = Inr (round_half_even (a * 2 ^ s) b, - int s)"
      by (simp add: nat_truediv_def e p Let_def)
    with norm show ?thesis by blast
  qed
qed

lemma math_ceil_between:
  fixes m k s :: nat
  assumes "0 < k" "(k - 1) * 2 ^ s < m" "m \<le> k * 2 ^ s"
  shows "math_ceil (Float (int m) (- int s)) = int k"
proof (cases "s = 0")
  case True
  with assms have "m = k" by simp
  with True show ?thesis by simp
next
  case False
  define r where "r = k * 2 ^ s - m"
  have r: "int r = int k * 2 ^ s - int m" using assms(3) by (simp add: r_def of_nat_diff)
  have "r < 2 ^ s"
  proof -
    define P Q :: nat where "P = (k - 1) * 2 ^ s" and "Q = 2 ^ s"
    have "k = (k - 1) + 1" using assms(1) by simp
    then have "k * 2 ^ s = ((k - 1) + 1) * 2 ^ s" by simp
    then have "k * 2 ^ s = P + Q" unfolding P_def Q_def by (simp only: add_mult_distrib)
    moreover have "P < m" using assms(2) by (simp add: P_def)
    moreover have "0 < Q" by (simp add: Q_def)
    ultimately show ?thesis unfolding r_def Q_def[symmetric] by linarith
  qed
  then have rs: "int r < 2 ^ s" by (metis of_nat_less_iff of_nat_numeral of_nat_power)
  have "(- int m) div 2 ^ s = - int k"
  proof (rule int_div_pos_eq)
    show "- int m = 2 ^ s * (- int k) + int r" using r by simp
    show "0 \<le> int r" by simp
    show "int r < 2 ^ s" by (rule rs)
  qed
  with False show ?thesis by simp
qed

lemma ceiling_quotient_nat:
  fixes a b :: nat
  assumes "0 < a" "0 < b"
  defines "k \<equiv> nat \<lceil>real a / real b\<rceil>"
  shows "0 < k" "(k - 1) * b < a" "a \<le> k * b" "int k = \<lceil>real a / real b\<rceil>"
proof -
  have pos: "0 < real a / real b" using assms by simp
  then have c: "0 < \<lceil>real a / real b\<rceil>" by (simp add: less_ceiling_iff)
  then show k: "0 < k" by (simp add: k_def)
  show ik: "int k = \<lceil>real a / real b\<rceil>" using c by (simp add: k_def)
  have "real a / real b \<le> real_of_int \<lceil>real a / real b\<rceil>" by (rule le_of_int_ceiling)
  then have "real a / real b \<le> real k" using ik by (metis of_int_of_nat_eq)
  then have "real a \<le> real k * real b" using assms(2) by (simp add: field_simps)
  then show "a \<le> k * b" by (metis of_nat_le_iff of_nat_mult)
  have "real_of_int \<lceil>real a / real b\<rceil> - 1 < real a / real b" by linarith
  then have "real k - 1 < real a / real b" using ik by (metis of_int_of_nat_eq)
  moreover have "real (k - 1) = real k - 1" using k by (simp add: of_nat_diff)
  ultimately have "real (k - 1) < real a / real b" by simp
  then have "real (k - 1) * real b < real a" using assms(2) by (simp add: field_simps)
  then show "(k - 1) * b < a" by (metis of_nat_less_iff of_nat_mult)
qed

lemma ceil_truediv_small:
  assumes n: "0 \<le> n" "n < 2 ^ 53" and l: "1 \<le> l" "l < 2 ^ 53"
  shows "bind_err (py_truediv n l) (\<lambda>x. Inr (math_ceil x)) = Inr \<lceil>real_of_int n / real_of_int l\<rceil>"
proof (cases "n = 0")
  case True
  with l show ?thesis by (simp add: py_truediv_def)
next
  case False
  define a where "a = nat n"
  define b where "b = nat l"
  have a: "0 < a" "a < 2 ^ 53" using n False by (simp_all add: a_def nat_less_iff)
  have b: "0 < b" "b < 2 ^ 53" using l by (simp_all add: b_def nat_less_iff)
  have ab: "n = int a" "l = int b" using n l by (simp_all add: a_def b_def)
  obtain s where t: "nat_truediv a b = Inr (round_half_even (a * 2 ^ s) b, - int s)"
    and norm: "2 ^ 52 * b \<le> a * 2 ^ s"
    using nat_truediv_small[OF a b] by blast
  define k where "k = nat \<lceil>real a / real b\<rceil>"
  note k = ceiling_quotient_nat[OF a(1) b(1), folded k_def]
  note rb = round_half_even_bounds[OF b(1) k(1) k(2) k(3) norm a(2)]
  have "math_ceil (Float (int (round_half_even (a * 2 ^ s) b)) (- int s)) = int k"
    by (rule math_ceil_between[OF k(1) rb])
  moreover have "py_truediv n l = Inr (Float (int (round_half_even (a * 2 ^ s) b)) (- int s))"
    using a(1) b(1) by (simp add: py_truediv_def ab t)
  ultimately show ?thesis by (simp add: k(4) ab)
qed

lemma bit_length_eq:
  assumes "0 < k" "2 ^ (k - 1) \<le> n" "n < 2 ^ k"
  shows "bit_length n = k"
proof -
  have n: "0 < n" using assms(2) by (metis gr0I not_less zero_less_numeral zero_less_power)
  note b = bit_length_bounds[OF n]
  have "bit_length n \<le> k" by (rule bit_length_le[OF assms(3)])
  moreover have "(2::nat) ^ (k - 1) < 2 ^ bit_length n"
    using assms(2) b le_less_trans by blast
  then have "k - 1 < bit_length n" by (simp only: power_strict_increasing_iff)
  ultimately show ?thesis using assms(1) by linarith
qed

lemma py_truediv_2_53_1: "py_truediv 9007199254740993 1 = Inr (Float 4503599627370496 1)"
proof -
  have a: "bit_length 9007199254740993 = 54" by (rule bit_length_eq) simp_all
  have b: "bit_length (Suc 0) = 1" by (simp add: bit_length.simps[of "Suc 0"] bit_length.simps[of 0])
  have e: "floor_log2_quot 9007199254740993 (Suc 0) = 53"
    by (simp add: floor_log2_quot_def a b Let_def)
  have m: "round_half_even 9007199254740993 2 = 4503599627370496"
    by (simp add: round_half_even_def Let_def)
  have t: "nat_truediv 9007199254740993 (Suc 0) = Inr (4503599627370496, 1)"
    by (simp add: nat_truediv_def e m Let_def)
  show ?thesis
    by (simp add: py_truediv_def t)
qed

lemma create_pagination_response_small:
  assumes "0 \<le> n" "n < 2 ^ 53" "1 \<le> l" "l < 2 ^ 53"
  shows "create_pagination_response items n p l =
           Inr \<lparr>response_data = items,
                pagination = \<lparr>current_page = p, page_size = l, total_items = n,
                  total_pages = \<lceil>real_of_int n / real_of_int l\<rceil>,
                  meta_has_next = (p < \<lceil>real_of_int n / real_of_int l\<rceil>),
                  meta_has_previous = (1 < p)\<rparr>\<rparr>"
  using assms(3) by (simp add: create_pagination_response_def ceil_truediv_small[OF assms])

text \<open>
  C4 (amended). For \<open>page >= 1\<close>, \<open>1 <= limit < 2 ^ 53\<close> and \<open>0 <= total_items < 2 ^ 53\<close> the
  metadata has \<open>total_pages = ceil(total_items / limit)\<close>, \<open>has_next = (page < total_pages)\<close>
  and \<open>has_previous = (page > 1)\<close>; with \<open>total_items = 0\<close> it has no pages and no next
  page. With a limit that is not positive, \<open>total_pages\<close> is \<open>0\<close>.
\<close>

theorem create_pagination_response_meta:
  "(1 \<le> p \<and> 1 \<le> l \<and> l < 2 ^ 53 \<and> 0 \<le> n \<and> n < 2 ^ 53 \<longrightarrow>
      create_pagination_response items n p l =
        Inr \<lparr>response_data = items,
             pagination = \<lparr>current_page = p, page_size = l, total_items = n,
               total_pages = \<lceil>real_of_int n / real_of_int l\<rceil>,
               meta_has_next = (p < \<lceil>real_of_int n / real_of_int l\<rceil>),
               meta_has_previous = (1 < p)\<rparr>\<rparr>
      \<and> (n = 0 \<longrightarrow> \<lceil>real_of_int n / real_of_int l\<rceil> = 0
                     \<and> \<not> p < \<lceil>real_of_int n / real_of_int l\<rceil>))
   \<and> (l \<le> 0 \<longrightarrow>
      create_pagination_response items n p l =
        Inr \<lparr>response_data = items,
             pagination = \<lparr>current_page = p, page_size = l, total_items = n,
               total_pages = 0, meta_has_next = (p < 0), meta_has_previous = (1 < p)\<rparr>\<rparr>)"
proof (intro conjI impI)
  assume a: "1 \<le> p \<and> 1 \<le> l \<and> l < 2 ^ 53 \<and> 0 \<le> n \<and> n < 2 ^ 53"
  then show "create_pagination_response items n p l =
        Inr \<lparr>response_data = items,
             pagination = \<lparr>current_page = p, page_size = l, total_items = n,
               total_pages = \<lceil>real_of_int n / real_of_int l\<rceil>,
               meta_has_next = (p < \<lceil>real_of_int n / real_of_int l\<rceil>),
               meta_has_previous = (1 < p)\<rparr>\<rparr>"
    by (intro create_pagination_response_small) simp_all
  assume "n = 0"
  with a show "\<lceil>real_of_int n / real_of_int l\<rceil> = 0" by simp
  from a \<open>n = 0\<close> show "\<not> p < \<lceil>real_of_int n / real_of_int l\<rceil>" by simp
next
  assume "l \<le> 0"
  then show "create_pagination_response items n p l =
        Inr \<lparr>response_data = items,
             pagination = \<lparr>current_page = p, page_size = l, total_items = n,
               total_pages = 0, meta_has_next = (p < 0), meta_has_previous = (1 < p)\<rparr>\<rparr>"
    by (simp add: create_pagination_response_def)
qed

theorem create_pagination_response_meta_witness:
  "(1::int) \<le> 3 \<and> (1::int) \<le> 10 \<and> (10::int) < 2 ^ 53 \<and> (0::int) \<le> 25 \<and> (25::int) < 2 ^ 53
   \<and> create_pagination_response [] 25 3 10 =
        Inr \<lparr>response_data = [],
             pagination = \<lparr>current_page = 3, page_size = 10, total_items = 25,
               total_pages = 3, meta_has_next = False, meta_has_previous = True\<rparr>\<rparr>
   \<and> create_pagination_response [] 0 1 10 =
        Inr \<lparr>response_data = [],
             pagination = \<lparr>current_page = 1, page_size = 10, total_items = 0,
               total_pages = 0, meta_has_next = False, meta_has_previous = False\<rparr>\<rparr>
   \<and> create_pagination_response [] 25 3 0 =
        Inr \<lparr>response_data = [],
             pagination = \<lparr>current_page = 3, page_size = 0, total_items = 25,
               total_pages = 0, meta_has_next = False, meta_has_previous = True\<rparr>\<rparr>"
proof -
  have c: "\<lceil>real_of_int 25 / real_of_int 10\<rceil> = 3" by (simp add: ceiling_eq_iff)
  have z: "\<lceil>real_of_int 0 / real_of_int 10\<rceil> = 0" by simp
  show ?thesis
    using create_pagination_response_meta[of 3 10 25 "[]"]
      create_pagination_response_meta[of 1 10 0 "[]"]
      create_pagination_response_meta[of 3 0 25 "[]"]
    by (simp add: c)
qed

text \<open>
  C4 as stated fails beyond the precision of a double: \<open>9007199254740993 / 1\<close> is the
  float \<open>9007199254740992.0\<close>, so one page is missing.
\<close>

theorem total_pages_precision_counterexample:
  "create_pagination_response [] 9007199254740993 1 1 =
     Inr \<lparr>response_data = [],
          pagination = \<lparr>current_page = 1, page_size = 1, total_items = 9007199254740993,
            total_pages = 9007199254740992, meta_has_next = True, meta_has_previous = False\<rparr>\<rparr>
   \<and> \<lceil>real_of_int 9007199254740993 / real_of_int 1\<rceil> = (9007199254740993::int)"
  by (simp add: create_pagination_response_def py_truediv_2_53_1)

text \<open>
  C9. With \<open>page >= 1\<close> and \<open>limit >= 1\<close> the offset is \<open>(page - 1) * limit\<close>; it is not
  negative, and it is \<open>0\<close> on page \<open>1\<close>.
\<close>

theorem offset_formula:
  assumes "1 \<le> page params" "1 \<le> page_limit params"
  shows "offset params = (page params - 1) * page_limit params
         \<and> 0 \<le> offset params
         \<and> (page params = 1 \<longrightarrow> offset params = 0)"
  using assms by (simp add: offset_def)

theorem offset_formula_witness:
  "OffsetPaginationParams_init cfg100 3 10 = Inr \<lparr>page = 3, page_limit = 10\<rparr>
   \<and> 1 \<le> page \<lparr>page = 3, page_limit = 10\<rparr>
   \<and> 1 \<le> page_limit \<lparr>page = 3, page_limit = 10\<rparr>
   \<and> offset \<lparr>page = 3, page_limit = 10\<rparr> = 20
   \<and> offset \<lparr>page = 1, page_limit = 10\<rparr> = 0"
  using offset_formula[of "\<lparr>page = 3, page_limit = 10\<rparr>"]
    offset_formula[of "\<lparr>page = 1, page_limit = 10\<rparr>"]
  by (simp add: OffsetPaginationParams_init_def cfg100_def)

section \<open>Claims about the offset pager\<close>













end
